theory Spec2Isabelle
  imports Main "HOL-Library.Char_ord" "HOL-Library.List_Lexorder"
begin

section \<open>The shortest-path engine of App.jsx\<close>

text \<open>
  Station identifiers are JavaScript strings, modelled as \<open>string\<close>. The empty string is
  the only falsy string, so \<open>!startId\<close> is \<open>startId = ''''\<close>. Link weights are
  JavaScript numbers that \<open>handleAddEdge\<close> obtains from \<open>parseInt\<close>: integers held in
  IEEE-754 doubles. The model keeps them as integers and rounds every sum to the nearest
  double (\<open>add_double\<close> below). The objects \<open>distances\<close> and \<open>previous\<close>, used as dictionaries keyed
  by station id, are maps. A function with an option result returns \<open>None\<close> when the code
  loops for ever.
\<close>

record edge =
  source :: string
  target :: string
  weight :: int

text \<open>
  A tentative distance is \<open>Infinity\<close> or a finite number; a key that was never written reads
  as \<open>undefined\<close>, the \<open>None\<close> of the map \<open>distances\<close>.
\<close>

datatype dist = Infinity | Fin int

text \<open>
  \<open>class PriorityQueue\<close>: the array \<open>this.values\<close> of \<open>{val, priority}\<close> objects, the
  least priority first. \<open>enqueue\<close> pushes and then sorts the whole array by priority with
  the stable \<open>Array.prototype.sort\<close>. \<open>isEmpty\<close> and \<open>dequeue\<close> (\<open>shift\<close>) are the case
  distinction on the list in \<open>search_loop\<close> below: empty, or a first entry and the rest.
\<close>

type_synonym PriorityQueue = "(string \<times> int) list"

definition enqueue :: "string \<Rightarrow> int \<Rightarrow> PriorityQueue \<Rightarrow> PriorityQueue" where
  "enqueue val priority vs = sort_key snd (vs @ [(val, priority)])"

text \<open>
  The sum of two numbers is the exact sum rounded to the nearest double, ties to the even
  significand. A double has a significand of 53 bits: an integer below \<open>2^53\<close> is kept as it
  is, a larger one of \<open>53 + e\<close> bits is rounded to a multiple of \<open>2^e\<close> (\<open>round_mag\<close>), and a
  result of \<open>2^1024\<close> or more is \<open>Infinity\<close>. \<open>bitlen\<close> is the number of binary digits. Distances and
  weights are never negative in the application (\<open>handleAddEdge\<close> stores positive weights
  only); a negative sum is rounded in the same way by its magnitude.
\<close>

function bitlen :: "int \<Rightarrow> nat" where
  "bitlen n = (if n \<le> 0 then 0 else Suc (bitlen (n div 2)))"
  by pat_completeness auto
termination
  by (relation "measure nat") auto

declare bitlen.simps [simp del]

definition round_mag :: "int \<Rightarrow> int" where
  "round_mag n =
     (let e = bitlen n - 53;
          q = n div 2 ^ e;
          r = n mod 2 ^ e;
          half = 2 ^ (e - 1)
      in (if r < half \<or> (r = half \<and> even q) then q else q + 1) * 2 ^ e)"

definition round_double :: "int \<Rightarrow> dist" where
  "round_double x =
     (if \<bar>x\<bar> < 2 ^ 53 then Fin x
      else
        let m = round_mag \<bar>x\<bar>
        in if x < 0 then Fin (- m)
           else if m < 2 ^ 1024 then Fin m else Infinity)"

definition add_double :: "int \<Rightarrow> int \<Rightarrow> dist" where
  "add_double a b = round_double (a + b)"

text \<open>
  \<open>candidate < distances[neighborNodeId]\<close>: a comparison with \<open>undefined\<close> is false, any
  finite number is below \<open>Infinity\<close>.
\<close>

fun lt_dist :: "int \<Rightarrow> dist option \<Rightarrow> bool" where
  "lt_dist candidate None = False"
| "lt_dist candidate (Some Infinity) = True"
| "lt_dist candidate (Some (Fin d)) = (candidate < d)"

text \<open>
  The local variables of \<open>dijkstra\<close>. \<open>previous[id]\<close> is \<open>null\<close>, \<open>undefined\<close> or a
  station id; the code only tests it for truthiness, so \<open>null\<close> and \<open>undefined\<close> are both
  \<open>None\<close>.
\<close>

record search =
  distances :: "string \<rightharpoonup> dist"
  previous :: "string \<rightharpoonup> string"
  pq :: PriorityQueue

text \<open>
  The body of \<open>neighbors.forEach\<close> for one incident edge. It runs only under the guard
  \<open>distances[smallest] !== Infinity\<close>; were \<open>distances[smallest]\<close> undefined, the candidate
  would be \<open>NaN\<close> and the comparison false, so nothing would change either. A candidate
  that overflows to \<open>Infinity\<close> is below no distance.
\<close>

definition relax :: "string \<Rightarrow> edge \<Rightarrow> search \<Rightarrow> search" where
  "relax smallest neighborEdge st =
     (let neighborNodeId =
            (if source neighborEdge = smallest then target neighborEdge else source neighborEdge)
      in case distances st smallest of
           Some (Fin ds) \<Rightarrow>
             (case add_double ds (weight neighborEdge) of
                Fin candidate \<Rightarrow>
                  if lt_dist candidate (distances st neighborNodeId)
                  then st\<lparr>distances := (distances st)(neighborNodeId \<mapsto> Fin candidate),
                          previous := (previous st)(neighborNodeId \<mapsto> smallest),
                          pq := enqueue neighborNodeId candidate (pq st)\<rparr>
                  else st
              | Infinity \<Rightarrow> st)
         | _ \<Rightarrow> st)"

text \<open>
  \<open>while (currentNode) { path.unshift(currentNode); currentNode = previous[currentNode]; }\<close>.
  The loop runs for ever on a cycle of predecessor links, hence the option result.
\<close>

partial_function (option) walk_back ::
  "(string \<rightharpoonup> string) \<Rightarrow> string option \<Rightarrow> string list \<Rightarrow> string list option" where
  "walk_back prev currentNode path =
     (case currentNode of
        None \<Rightarrow> Some path
      | Some c \<Rightarrow> if c = '''' then Some path else walk_back prev (prev c) (c # path))"

text \<open>
  \<open>while (!pq.isEmpty())\<close>: dequeue the entry of least priority; return the reconstructed
  path when it is the target, otherwise relax every incident edge. There is no visited set:
  a stale entry is expanded again with the node's current distance.
\<close>

partial_function (option) search_loop ::
  "edge list \<Rightarrow> string \<Rightarrow> search \<Rightarrow> string list option" where
  "search_loop edges endId st =
     (case pq st of
        [] \<Rightarrow> Some []
      | (smallest, priority) # rest \<Rightarrow>
          if smallest = endId then walk_back (previous st) (Some endId) []
          else if smallest \<noteq> '''' \<and> distances st smallest \<noteq> Some Infinity
          then search_loop edges endId
                 (fold (relax smallest)
                    (filter (\<lambda>edge. source edge = smallest \<or> target edge = smallest) edges)
                    (st\<lparr>pq := rest\<rparr>))
          else search_loop edges endId (st\<lparr>pq := rest\<rparr>))"

declare walk_back.simps [code]
declare search_loop.simps [code]

definition dijkstra :: "string list \<Rightarrow> edge list \<Rightarrow> string \<Rightarrow> string \<Rightarrow> string list option" where
  "dijkstra nodes edges startId endId =
     (if startId = '''' \<or> endId = '''' \<or> length nodes = 0 then Some []
      else
        let distances0 =
              fold (\<lambda>node D. D(node \<mapsto> (if node = startId then Fin 0 else Infinity)))
                nodes Map.empty;
            pq0 = (if distances0 startId = Some (Fin 0) then enqueue startId 0 [] else [])
        in search_loop edges endId
             \<lparr>distances = distances0, previous = Map.empty, pq = pq0\<rparr>)"

subsection \<open>Graphs, walks and their cost\<close>

text \<open>
  Two stations are linked with weight \<open>w\<close> when some edge of weight \<open>w\<close> joins them, in
  either direction. \<open>wpath edges s p c e\<close>: the station sequence \<open>p\<close> is a walk from \<open>s\<close>
  to \<open>e\<close> along links of total weight \<open>c\<close>.
\<close>

definition linked :: "edge list \<Rightarrow> string \<Rightarrow> string \<Rightarrow> int \<Rightarrow> bool" where
  "linked edges a b w \<longleftrightarrow>
     (\<exists>e \<in> set edges. weight e = w \<and>
        ((source e = a \<and> target e = b) \<or> (source e = b \<and> target e = a)))"

inductive wpath :: "edge list \<Rightarrow> string \<Rightarrow> string list \<Rightarrow> int \<Rightarrow> string \<Rightarrow> bool"
  for edges :: "edge list" and s :: string where
  start: "wpath edges s [s] 0 s"
| step: "wpath edges s p c a \<Longrightarrow> linked edges a b w \<Longrightarrow> wpath edges s (p @ [b]) (c + w) b"

text \<open>
  A well-formed graph: station ids are non-empty strings, every link joins two stations of
  the graph and has a positive weight.
\<close>

definition wf_graph :: "string list \<Rightarrow> edge list \<Rightarrow> bool" where
  "wf_graph nodes edges \<longleftrightarrow>
     '''' \<notin> set nodes \<and>
     (\<forall>e \<in> set edges. 0 < weight e \<and> source e \<in> set nodes \<and> target e \<in> set nodes)"

text \<open>
  The weights are small enough for every sum along a path to be exact: the number of
  stations times any weight stays below \<open>2^53\<close>.
\<close>

definition exact_sums :: "string list \<Rightarrow> edge list \<Rightarrow> bool" where
  "exact_sums nodes edges \<longleftrightarrow> (\<forall>e \<in> set edges. int (length nodes) * weight e < 2 ^ 53)"

section \<open>The application state of App.jsx and its handlers\<close>

text \<open>
  A log line is a template literal behind a time stamp; the model keeps the template and its
  arguments and leaves the clock out:
  \<^item> \<open>SimulationStopped\<close>: "Simulation stopped."
  \<^item> \<open>GeneratedStations n\<close>: "Generated n new stations."
  \<^item> \<open>NetworkChange p\<close>: "Network change detected. Recalculating path from current station p."
  \<^item> \<open>PathUpdated path\<close>: "Path updated. New route: ..."
  \<^item> \<open>NoAlternativePath p\<close>: "No alternative path found from p. Stopping simulation."
  \<^item> \<open>InvalidEdge\<close>: "Error: Invalid edge. Ensure stations are different and weight is positive."
  \<^item> \<open>UpdatedWeight a b w\<close>: "Updated weight between a and b to w."
  \<^item> \<open>AddedRailroad a b w\<close>: "Added railroad between a and b with distance w."
  \<^item> \<open>SelectBoth\<close>: "Error: Please select both source and destination stations."
  \<^item> \<open>ShortestPathFound a b path\<close>: "Shortest path from a to b: ..."
  \<^item> \<open>NoPathFound a b\<close>: "No path found from a to b."
  \<^item> \<open>StartingJourney a\<close>: "Starting journey at Station a. Waiting for dispatch."
  \<^item> \<open>CannotStart\<close>: "Cannot start: Calculate a path first."
  \<^item> \<open>TrainProceeding a b\<close>: "Train proceeding from Station a to b."
  \<^item> \<open>TrainArrived b\<close>: "Train has arrived at destination: Station b."
\<close>

datatype message =
    SimulationStopped
  | GeneratedStations int
  | NetworkChange string
  | PathUpdated "string list"
  | NoAlternativePath string
  | InvalidEdge
  | UpdatedWeight string string int
  | AddedRailroad string string int
  | SelectBoth
  | ShortestPathFound string string "string list"
  | NoPathFound string string
  | StartingJourney string
  | CannotStart
  | TrainProceeding string string
  | TrainArrived string

text \<open>
  The \<open>useState\<close> cells of \<open>App\<close>. \<open>numStations\<close> is a number, or \<open>NaN\<close> or the empty
  string while the field is being edited (both \<open>None\<close>: the initialization effect returns
  early on either). \<open>trainPosition\<close> is \<open>null\<close> or a station id.
\<close>

record app =
  numStations :: "int option"
  nodes :: "string list"
  edges :: "edge list"
  sourceNode :: string
  destNode :: string
  shortestPath :: "string list"
  trainPosition :: "string option"
  isSimulating :: bool
  logs :: "message list"

text \<open>\<open>addLog\<close>: the new line goes in front, the ten most recent lines are kept.\<close>

definition addLog :: "message \<Rightarrow> message list \<Rightarrow> message list" where
  "addLog m prev = take 10 (m # prev)"

definition stopSimulation :: "app \<Rightarrow> app" where
  "stopSimulation st =
     st\<lparr>isSimulating := False, trainPosition := None,
        logs := addLog SimulationStopped (logs st)\<rparr>"

text \<open>
  \<open>Array.from({ length: count }, (_, i) => String.fromCharCode(65 + i))\<close>, the expression of
  the initialization effect of App.jsx and of \<open>generateStations\<close> in RailwayMap.jsx.
\<close>

definition generateStations :: "int \<Rightarrow> string list" where
  "generateStations count = map (\<lambda>i. [char_of (65 + i)]) [0 ..< nat count]"

text \<open>
  The graph initialization effect, run when \<open>numStations\<close> changes. A count that is not a
  number or lies outside 2..15 makes it return before any state is written.
\<close>

definition graphInit :: "app \<Rightarrow> app" where
  "graphInit st =
     (case numStations st of
        None \<Rightarrow> st
      | Some n \<Rightarrow>
          if n < 2 \<or> n > 15 then st
          else
            let st1 = stopSimulation
                  (st\<lparr>nodes := generateStations n, edges := [], sourceNode := '''',
                      destNode := '''', shortestPath := []\<rparr>)
            in st1\<lparr>logs := addLog (GeneratedStations n) (logs st1)\<rparr>)"

text \<open>
  The input field of the station count: \<open>onChange\<close> stores the parsed value as it is,
  \<open>onBlur\<close> clamps it to 2..15. The effect runs only when the stored value changes.
\<close>

definition setNumStations :: "int option \<Rightarrow> app \<Rightarrow> app" where
  "setNumStations v st =
     (if numStations st = v then st else graphInit (st\<lparr>numStations := v\<rparr>))"

definition numStations_onBlur :: "int option \<Rightarrow> app \<Rightarrow> app" where
  "numStations_onBlur parsed st =
     (let val0 = (case parsed of None \<Rightarrow> 2 | Some v \<Rightarrow> if v < 2 then 2 else v);
          val1 = (if val0 > 15 then 15 else val0)
      in setNumStations (Some val1) st)"

text \<open>
  \<open>Array.prototype.indexOf\<close> (first position, -1 when absent) and \<open>slice(0, k)\<close>, where a
  negative \<open>k\<close> counts from the end.
\<close>

fun indexOf :: "string list \<Rightarrow> string \<Rightarrow> int" where
  "indexOf [] x = - 1"
| "indexOf (y # ys) x =
     (if y = x then 0 else (let i = indexOf ys x in if i < 0 then - 1 else i + 1))"

definition slice0 :: "'a list \<Rightarrow> int \<Rightarrow> 'a list" where
  "slice0 xs k = (if k < 0 then take (nat (int (length xs) + k)) xs else take (nat k) xs)"

text \<open>\<open>!trainPosition\<close>: \<open>null\<close> and the empty string are falsy.\<close>

definition falsy :: "string option \<Rightarrow> bool" where
  "falsy v \<longleftrightarrow> (case v of None \<Rightarrow> True | Some s \<Rightarrow> s = '''')"

text \<open>
  The re-route effect, run when \<open>edges\<close> (or \<open>dijkstra\<close>) changes. The result is \<open>None\<close>
  when the path search does not return.
\<close>

definition reroute :: "app \<Rightarrow> app option" where
  "reroute st =
     (case trainPosition st of
        Some pos \<Rightarrow>
          if isSimulating st \<and> pos \<noteq> '''' \<and> destNode st \<noteq> ''''
          then
            (let logs1 = addLog (NetworkChange pos) (logs st)
             in case dijkstra (nodes st) (edges st) pos (destNode st) of
                  None \<Rightarrow> None
                | Some newPathSegment \<Rightarrow>
                    if length newPathSegment > 0
                    then
                      (let oldPathTraversed =
                             slice0 (shortestPath st) (indexOf (shortestPath st) pos);
                           newFullPath = oldPathTraversed @ newPathSegment
                       in if newFullPath \<noteq> shortestPath st
                          then Some (st\<lparr>shortestPath := newFullPath,
                                       logs := addLog (PathUpdated newFullPath) logs1\<rparr>)
                          else Some (st\<lparr>logs := logs1\<rparr>))
                    else Some (stopSimulation
                                 (st\<lparr>logs := addLog (NoAlternativePath pos) logs1\<rparr>)))
          else Some st
      | None \<Rightarrow> Some st)"

text \<open>
  \<open>handleAddEdge\<close>. The third argument is \<open>parseInt(weight field, 10)\<close>: \<open>None\<close> is \<open>NaN\<close>.
  \<open>invalid_edge\<close> is the guard \<open>from === to || isNaN(weight) || weight <= 0\<close>; past it the
  weight is a number, so the \<open>None\<close> case after the guard is never taken.
  \<open>edges.map(edge => edge === existingEdge ? {...edge, weight} : edge)\<close> compares object
  identities, so it rewrites the one array slot that \<open>find\<close> returned, the first match.
\<close>

definition same_pair :: "string \<Rightarrow> string \<Rightarrow> edge \<Rightarrow> bool" where
  "same_pair a b e \<longleftrightarrow> (source e = a \<and> target e = b) \<or> (source e = b \<and> target e = a)"

fun set_weight_first :: "(edge \<Rightarrow> bool) \<Rightarrow> int \<Rightarrow> edge list \<Rightarrow> edge list" where
  "set_weight_first P w [] = []"
| "set_weight_first P w (e # es) =
     (if P e then e\<lparr>weight := w\<rparr> # es else e # set_weight_first P w es)"

definition invalid_edge :: "string \<Rightarrow> string \<Rightarrow> int option \<Rightarrow> bool" where
  "invalid_edge from_id to_id parsed \<longleftrightarrow>
     from_id = to_id \<or> (case parsed of None \<Rightarrow> True | Some w \<Rightarrow> w \<le> 0)"

definition handleAddEdge :: "string \<Rightarrow> string \<Rightarrow> int option \<Rightarrow> app \<Rightarrow> app" where
  "handleAddEdge from_id to_id parsed st =
     (if invalid_edge from_id to_id parsed
      then st\<lparr>logs := addLog InvalidEdge (logs st)\<rparr>
      else
        case parsed of
          None \<Rightarrow> st\<lparr>logs := addLog InvalidEdge (logs st)\<rparr>
        | Some w \<Rightarrow>
            (case find (same_pair from_id to_id) (edges st) of
               Some existingEdge \<Rightarrow>
                 st\<lparr>edges := set_weight_first (same_pair from_id to_id) w (edges st),
                    logs := addLog (UpdatedWeight from_id to_id w) (logs st)\<rparr>
             | None \<Rightarrow>
                 st\<lparr>edges := edges st @ [\<lparr>source = from_id, target = to_id, weight = w\<rparr>],
                    logs := addLog (AddedRailroad from_id to_id w) (logs st)\<rparr>))"

text \<open>
  Submitting the form: the handler, and then the re-route effect when the handler stored a
  new \<open>edges\<close> array.
\<close>

definition submitEdge :: "string \<Rightarrow> string \<Rightarrow> int option \<Rightarrow> app \<Rightarrow> app option" where
  "submitEdge from_id to_id parsed st =
     (if invalid_edge from_id to_id parsed then Some (handleAddEdge from_id to_id parsed st)
      else reroute (handleAddEdge from_id to_id parsed st))"

definition setSourceNode :: "string \<Rightarrow> app \<Rightarrow> app" where
  "setSourceNode v st = st\<lparr>sourceNode := v\<rparr>"

definition setDestNode :: "string \<Rightarrow> app \<Rightarrow> app" where
  "setDestNode v st = st\<lparr>destNode := v\<rparr>"

definition handleCalculatePath :: "app \<Rightarrow> app option" where
  "handleCalculatePath st =
     (if sourceNode st = '''' \<or> destNode st = ''''
      then Some (st\<lparr>logs := addLog SelectBoth (logs st)\<rparr>)
      else
        let st1 = stopSimulation st
        in case dijkstra (nodes st) (edges st) (sourceNode st) (destNode st) of
             None \<Rightarrow> None
           | Some path \<Rightarrow>
               if length path > 0
               then Some (st1\<lparr>shortestPath := path, trainPosition := None,
                            logs := addLog (ShortestPathFound (sourceNode st) (destNode st) path)
                                      (logs st1)\<rparr>)
               else Some (st1\<lparr>shortestPath := [],
                            logs := addLog (NoPathFound (sourceNode st) (destNode st))
                                      (logs st1)\<rparr>))"

definition startSimulation :: "app \<Rightarrow> app" where
  "startSimulation st =
     (if length (shortestPath st) > 0 \<and> sourceNode st \<noteq> '''' \<and> destNode st \<noteq> ''''
      then st\<lparr>isSimulating := True, trainPosition := Some (sourceNode st),
              logs := addLog (StartingJourney (sourceNode st)) (logs st)\<rparr>
      else st\<lparr>logs := addLog CannotStart (logs st)\<rparr>)"

text \<open>
  \<open>handleProceed\<close>; \<open>!trainPosition\<close> holds for \<open>null\<close> and for the empty string. Under
  the guard \<open>currentIndex < shortestPath.length - 1\<close> the index
  \<open>currentIndex + 1\<close> lies in \<open>0 .. length - 1\<close>, since \<open>indexOf\<close> is at least -1.
\<close>

definition handleProceed :: "app \<Rightarrow> app" where
  "handleProceed st =
     (case trainPosition st of
        None \<Rightarrow> st
      | Some pos \<Rightarrow>
          if \<not> isSimulating st \<or> pos = '''' then st
          else
            let currentIndex = indexOf (shortestPath st) pos
            in if currentIndex < int (length (shortestPath st)) - 1
               then
                 (let nextPos = shortestPath st ! nat (currentIndex + 1);
                      st1 = st\<lparr>trainPosition := Some nextPos,
                               logs := addLog (TrainProceeding pos nextPos) (logs st)\<rparr>
                  in if nextPos = destNode st
                     then st1\<lparr>isSimulating := False,
                             logs := addLog (TrainArrived (destNode st)) (logs st1)\<rparr>
                     else st1)
               else st)"

text \<open>The state before the first render, and after the effects of mounting have run.\<close>

definition initial :: app where
  "initial = \<lparr>numStations = Some 6, nodes = [], edges = [], sourceNode = '''', destNode = '''',
     shortestPath = [], trainPosition = None, isSimulating = False, logs = []\<rparr>"

definition mounted :: app where
  "mounted = graphInit initial"

section \<open>The graph editor of RailwayMap.jsx\<close>

text \<open>
  \<open>makeEdgeKey(a, b) = [a, b].sort().join("-")\<close>: the default sort orders strings by their
  code units, which is the lexicographic order on \<open>string\<close>.
\<close>

definition makeEdgeKey :: "string \<Rightarrow> string \<Rightarrow> string" where
  "makeEdgeKey a b = (if b < a then b @ ''-'' @ a else a @ ''-'' @ b)"

text \<open>
  The \<open>useState\<close> cells of \<open>DynamicNonLinearGraph\<close>. An edge is the pair
  \<open>[start, end]\<close>; its weight sits in the object \<open>weights\<close> under the edge key. The number
  that \<open>Number(...)\<close> reads from the weight field is kept as an uninterpreted value of type
  \<open>'num\<close>. \<open>alerts\<close> collects the texts passed to \<open>alert\<close>, the newest first.
\<close>

record 'num railway =
  stationCount :: int
  stations :: "string list"
  rm_edges :: "(string \<times> string) list"
  weights :: "string \<rightharpoonup> 'num"
  newEdgeStart :: string
  newEdgeEnd :: string
  newEdgeWeight :: 'num
  alerts :: "string list"

text \<open>
  \<open>changeStationCount\<close>. The new list has at least two entries (the count is clamped to
  2..26), so \<open>newStations[0]\<close> and \<open>newStations[1]\<close> are both defined;
  \<open>newStations[1] || newStations[0]\<close> falls back to the first on a falsy second.
\<close>

definition changeStationCount :: "int \<Rightarrow> 'num railway \<Rightarrow> 'num railway" where
  "changeStationCount count st =
     (let c = max 2 (min 26 count);
          newStations = generateStations c
      in st\<lparr>stationCount := c, stations := newStations, rm_edges := [], weights := Map.empty,
            newEdgeStart := newStations ! 0,
            newEdgeEnd := (if newStations ! 1 \<noteq> '''' then newStations ! 1
                           else newStations ! 0)\<rparr>)"

definition addEdge :: "'num railway \<Rightarrow> 'num railway" where
  "addEdge st =
     (if newEdgeStart st = newEdgeEnd st
      then st\<lparr>alerts := ''Start and end stations must differ'' # alerts st\<rparr>
      else
        let key = makeEdgeKey (newEdgeStart st) (newEdgeEnd st)
        in case find (\<lambda>(a, b). makeEdgeKey a b = key) (rm_edges st) of
             Some found \<Rightarrow> st\<lparr>alerts := ''Edge already exists'' # alerts st\<rparr>
           | None \<Rightarrow>
               st\<lparr>rm_edges := rm_edges st @ [(newEdgeStart st, newEdgeEnd st)],
                  weights := (weights st)(key \<mapsto> newEdgeWeight st)\<rparr>)"

definition updateWeight :: "string \<Rightarrow> 'num \<Rightarrow> 'num railway \<Rightarrow> 'num railway" where
  "updateWeight key val st = st\<lparr>weights := (weights st)(key \<mapsto> val)\<rparr>"

section \<open>Invariants of the link sets\<close>

text \<open>
  At most one link per unordered pair of stations: in App.jsx the unordered pairs of the
  edge list are pairwise different, in RailwayMap.jsx the edge keys are.
\<close>

definition one_link_per_pair :: "edge list \<Rightarrow> bool" where
  "one_link_per_pair es \<longleftrightarrow> distinct (map (\<lambda>e. {source e, target e}) es)"

definition one_key_per_pair :: "(string \<times> string) list \<Rightarrow> bool" where
  "one_key_per_pair ps \<longleftrightarrow> distinct (map (\<lambda>(a, b). makeEdgeKey a b) ps)"

section \<open>Invariants of the path search\<close>

text \<open>
  The loop invariant of \<open>search_loop\<close>, for a search from \<open>s\<close> to \<open>t\<close> over the stations
  \<open>N\<close> and the links \<open>E\<close>. \<open>inv_tree\<close>: the start keeps distance 0 and no predecessor, and
  every other finite distance is backed by a predecessor link. \<open>inv_queue\<close>: the queue is
  sorted, every entry is an upper bound of its node's distance, and the target's current
  distance is still queued. \<open>inv_done\<close>: a node's current distance is either queued or has
  been pushed along all its links (for the node \<open>u\<close> under expansion: along the links \<open>X\<close>
  handled so far). \<open>inv_bound\<close>: the finite distances stay so small that the next sum is
  exact. \<open>inv_reach\<close> is the weaker invariant that holds whatever the rounding: finite
  distances are not negative and belong to stations that a walk reaches, and queued stations
  have a finite distance. \<open>m_inf\<close>, \<open>m_sum\<close> and \<open>m_len\<close> measure the work left; \<open>post\<close>
  is the result: nothing when there is no walk, a cheapest walk otherwise.
\<close>

definition other_end :: "edge \<Rightarrow> string \<Rightarrow> string" where
  "other_end e v = (if source e = v then target e else source e)"

definition relaxed :: "search \<Rightarrow> string \<Rightarrow> int \<Rightarrow> edge set \<Rightarrow> bool" where
  "relaxed st v d X \<longleftrightarrow>
     (\<forall>e \<in> X. source e = v \<or> target e = v \<longrightarrow>
        \<not> lt_dist (d + weight e) (distances st (other_end e v)))"

definition inv_tree :: "edge list \<Rightarrow> string \<Rightarrow> search \<Rightarrow> bool" where
  "inv_tree E s st \<longleftrightarrow>
     distances st s = Some (Fin 0) \<and> previous st s = None \<and>
     (\<forall>v d. distances st v = Some (Fin d) \<longrightarrow>
        0 \<le> d \<and>
        (v \<noteq> s \<longrightarrow>
           (\<exists>p dp w. previous st v = Some p \<and> distances st p = Some (Fin dp) \<and>
              linked E p v w \<and> dp + w \<le> d)))"

definition inv_queue :: "string \<Rightarrow> search \<Rightarrow> bool" where
  "inv_queue t st \<longleftrightarrow>
     sorted (map snd (pq st)) \<and>
     (\<forall>(v, p) \<in> set (pq st). \<exists>d. distances st v = Some (Fin d) \<and> d \<le> p) \<and>
     (\<forall>d. distances st t = Some (Fin d) \<longrightarrow> (t, d) \<in> set (pq st))"

definition inv_done :: "edge list \<Rightarrow> string \<Rightarrow> edge set \<Rightarrow> search \<Rightarrow> bool" where
  "inv_done E u X st \<longleftrightarrow>
     (\<forall>v d. distances st v = Some (Fin d) \<longrightarrow>
        (v, d) \<in> set (pq st) \<or> relaxed st v d (if v = u then X else set E))"

definition search_inv :: "string list \<Rightarrow> edge list \<Rightarrow> string \<Rightarrow> string \<Rightarrow> string \<Rightarrow> edge set \<Rightarrow> search \<Rightarrow> bool" where
  "search_inv N E s t u X st \<longleftrightarrow>
     dom (distances st) = set N \<and> inv_tree E s st \<and> inv_queue t st \<and> inv_done E u X st"

definition fin_count :: "string list \<Rightarrow> search \<Rightarrow> nat" where
  "fin_count N st = card {v \<in> set N. \<exists>d. distances st v = Some (Fin d)}"

definition inv_bound :: "string list \<Rightarrow> search \<Rightarrow> bool" where
  "inv_bound N st \<longleftrightarrow>
     (\<forall>v d. distances st v = Some (Fin d) \<longrightarrow>
        int (length N) * d \<le> (int (fin_count N st) - 1) * (2 ^ 53 - 1))"

definition inv_reach :: "string list \<Rightarrow> edge list \<Rightarrow> string \<Rightarrow> search \<Rightarrow> bool" where
  "inv_reach N E s st \<longleftrightarrow>
     dom (distances st) = set N \<and>
     (\<forall>v d. distances st v = Some (Fin d) \<longrightarrow> 0 \<le> d \<and> (\<exists>q c. wpath E s q c v)) \<and>
     (\<forall>(v, p) \<in> set (pq st). \<exists>d. distances st v = Some (Fin d))"

definition m_inf :: "string list \<Rightarrow> search \<Rightarrow> nat" where
  "m_inf N st = card {v \<in> set N. distances st v = Some Infinity}"

definition m_sum :: "string list \<Rightarrow> search \<Rightarrow> nat" where
  "m_sum N st = (\<Sum>v \<in> set N. case distances st v of Some (Fin d) \<Rightarrow> nat d | _ \<Rightarrow> 0)"

definition m_len :: "search \<Rightarrow> nat" where
  "m_len st = length (pq st)"

definition post :: "edge list \<Rightarrow> string \<Rightarrow> string \<Rightarrow> string list \<Rightarrow> bool" where
  "post E s t r \<longleftrightarrow>
     (r = [] \<and> (\<forall>q c. \<not> wpath E s q c t)) \<or>
     (\<exists>c. wpath E s r c t \<and> (\<forall>q c'. wpath E s q c' t \<longrightarrow> c \<le> c'))"
section \<open>Concrete networks\<close>

text \<open>
  Stations A, B, C with the links A-B = 1, B-C = 1 and A-C = 5; the same links with a
  fourth, unconnected station D.
\<close>

definition stations3 :: "string list" where
  "stations3 = [''A'', ''B'', ''C'']"

definition links3 :: "edge list" where
  "links3 = [\<lparr>source = ''A'', target = ''B'', weight = 1\<rparr>,
             \<lparr>source = ''B'', target = ''C'', weight = 1\<rparr>,
             \<lparr>source = ''A'', target = ''C'', weight = 5\<rparr>]"

text \<open>
  The same three stations with weights beyond \<open>2^53\<close>: A-B = 9007199254740994, B-C = 1,
  A-C = 9007199254740996. All three are doubles; the sum 9007199254740995 is not.
\<close>

definition links_big :: "edge list" where
  "links_big = [\<lparr>source = ''A'', target = ''B'', weight = 9007199254740994\<rparr>,
                \<lparr>source = ''B'', target = ''C'', weight = 1\<rparr>,
                \<lparr>source = ''A'', target = ''C'', weight = 9007199254740996\<rparr>]"

definition stations4 :: "string list" where
  "stations4 = [''A'', ''B'', ''C'', ''D'']"

text \<open>The station names in order: the first \<open>n\<close> of them are what a count \<open>n\<close> generates.\<close>

definition alphabet :: "string list" where
  "alphabet = map (\<lambda>ch. [ch]) ''ABCDEFGHIJKLMNOPQRSTUVWXYZ''"

text \<open>
  A journey on the four-station network, stopped at B with the destination switched to the
  unconnected station D; the mounted application after one accepted link A-B = 1; and the
  editor of RailwayMap.jsx as it starts, with three stations and no link.
\<close>

definition in_transit_B :: app where
  "in_transit_B = \<lparr>numStations = Some 4, nodes = stations4, edges = links3,
     sourceNode = ''A'', destNode = ''D'', shortestPath = [''A'', ''B'', ''C''],
     trainPosition = Some ''B'', isSimulating = True, logs = []\<rparr>"

definition one_link :: app where
  "one_link = handleAddEdge ''A'' ''B'' (Some 1) mounted"

definition railway3 :: "unit railway" where
  "railway3 = \<lparr>stationCount = 3, stations = generateStations 3, rm_edges = [], weights = Map.empty,
     newEdgeStart = ''A'', newEdgeEnd = ''B'', newEdgeWeight = (), alerts = []\<rparr>"

text \<open>
  A session of the application: three links are entered, the path from A to C is calculated,
  then the source selection is changed to D and the journey is started.
\<close>

definition path_ready :: "app option" where
  "path_ready =
     Option.bind (submitEdge ''A'' ''B'' (Some 1) mounted) (\<lambda>s1.
     Option.bind (submitEdge ''B'' ''C'' (Some 1) s1) (\<lambda>s2.
     Option.bind (submitEdge ''D'' ''C'' (Some 1) s2) (\<lambda>s3.
     handleCalculatePath (setDestNode ''C'' (setSourceNode ''A'' s3)))))"

definition off_path :: "app option" where
  "off_path = map_option (\<lambda>s4. startSimulation (setSourceNode ''D'' s4)) path_ready"

text \<open>The journey invariant: an active journey has its train on the current path.\<close>

definition on_path :: "app \<Rightarrow> bool" where
  "on_path st \<longleftrightarrow>
     (isSimulating st \<longrightarrow>
        (case trainPosition st of None \<Rightarrow> False | Some pos \<Rightarrow> pos \<in> set (shortestPath st)))"

text \<open>A journey on the three-station network, started at A and bound for C.\<close>

definition in_transit_A :: app where
  "in_transit_A = \<lparr>numStations = Some 3, nodes = stations3, edges = links3,
     sourceNode = ''A'', destNode = ''C'', shortestPath = [''A'', ''B'', ''C''],
     trainPosition = Some ''A'', isSimulating = True, logs = []\<rparr>"

section \<open>Correctness of the path search\<close>

lemma set_enqueue: "set (enqueue v p q) = insert (v, p) (set q)"
  by (simp add: enqueue_def)

lemma sorted_enqueue: "sorted (map snd (enqueue v p q))"
  by (simp add: enqueue_def)

lemma linked_other_end:
  "e \<in> set E \<Longrightarrow> source e = u \<or> target e = u \<Longrightarrow> linked E u (other_end e u) (weight e)"
  by (auto simp: linked_def other_end_def)

lemma linked_obtain_edge:
  assumes "linked E a b w"
  obtains e where "e \<in> set E" "source e = a \<or> target e = a" "other_end e a = b" "weight e = w"
  using assms by (auto simp: linked_def other_end_def)

lemma round_double_exact: "0 \<le> x \<Longrightarrow> x < 2 ^ 53 \<Longrightarrow> round_double x = Fin x"
  by (simp add: round_double_def)

lemma round_mag_nonneg: "0 \<le> n \<Longrightarrow> 0 \<le> round_mag n"
  by (simp add: round_mag_def Let_def pos_imp_zdiv_nonneg_iff)

lemma round_double_nonneg:
  assumes "0 \<le> x" and "round_double x = Fin c"
  shows "0 \<le> c"
proof (cases "\<bar>x\<bar> < 2 ^ 53")
  case True
  with assms show ?thesis by (simp add: round_double_def)
next
  case False
  with assms have "c = round_mag \<bar>x\<bar>"
    by (simp add: round_double_def Let_def split: if_splits)
  then show ?thesis by (simp add: round_mag_nonneg)
qed

text \<open>
  What one relaxation does, whatever the rounding: nothing, or it lowers the distance of
  the other end to the rounded sum.
\<close>

lemma relax_general:
  obtains (same) "relax u e st = st"
  | (lower) du c where "distances st u = Some (Fin du)" "add_double du (weight e) = Fin c"
      "lt_dist c (distances st (other_end e u))"
      "relax u e st =
         st\<lparr>distances := (distances st)(other_end e u \<mapsto> Fin c),
            previous := (previous st)(other_end e u \<mapsto> u),
            pq := enqueue (other_end e u) c (pq st)\<rparr>"
proof (cases "distances st u")
  case None
  then have "relax u e st = st" by (simp add: relax_def)
  then show ?thesis by (rule same)
next
  case (Some D)
  show ?thesis
  proof (cases D)
    case Infinity
    with Some have "relax u e st = st" by (simp add: relax_def)
    then show ?thesis by (rule same)
  next
    case (Fin du)
    show ?thesis
    proof (cases "add_double du (weight e)")
      case Infinity
      with Some Fin have "relax u e st = st" by (simp add: relax_def)
      then show ?thesis by (rule same)
    next
      case c: (Fin c)
      show ?thesis
      proof (cases "lt_dist c (distances st (other_end e u))")
        case True
        with Some Fin c show ?thesis
          by (intro lower[of du c]) (simp_all add: relax_def other_end_def Let_def)
      next
        case False
        with Some Fin c have "relax u e st = st"
          by (simp add: relax_def other_end_def Let_def)
        then show ?thesis by (rule same)
      qed
    qed
  qed
qed

text \<open>The same when the sum is exact.\<close>

lemma relax_cases:
  assumes "distances st u = Some (Fin du)"
    and "add_double du (weight e) = Fin (du + weight e)"
  obtains
    (same) "\<not> lt_dist (du + weight e) (distances st (other_end e u))" "relax u e st = st"
  | (lower) "lt_dist (du + weight e) (distances st (other_end e u))"
      "relax u e st =
         st\<lparr>distances := (distances st)(other_end e u \<mapsto> Fin (du + weight e)),
            previous := (previous st)(other_end e u \<mapsto> u),
            pq := enqueue (other_end e u) (du + weight e) (pq st)\<rparr>"
  using assms by (cases "lt_dist (du + weight e) (distances st (other_end e u))")
    (simp_all add: relax_def other_end_def Let_def)

lemma lt_dist_cases:
  assumes "lt_dist c D"
  obtains "D = Some Infinity" | d where "D = Some (Fin d)" "c < d"
  using assms by (cases "(c, D)" rule: lt_dist.cases) auto

lemma inv_tree_pred:
  "inv_tree E s st \<Longrightarrow> distances st v = Some (Fin d) \<Longrightarrow> v \<noteq> s \<Longrightarrow>
   \<exists>p dp w. previous st v = Some p \<and> distances st p = Some (Fin dp) \<and>
      linked E p v w \<and> dp + w \<le> d"
  unfolding inv_tree_def by blast

lemma inv_tree_nonneg: "inv_tree E s st \<Longrightarrow> distances st v = Some (Fin d) \<Longrightarrow> 0 \<le> d"
  unfolding inv_tree_def by blast

lemma relax_inv:
  assumes I: "search_inv N E s t u X st"
    and pos: "\<forall>e \<in> set E. 0 < weight e"
    and e: "e \<in> set E" "source e = u \<or> target e = u"
    and du: "distances st u = Some (Fin du)"
    and ex: "add_double du (weight e) = Fin (du + weight e)"
  shows "search_inv N E s t u (insert e X) (relax u e st)"
proof -
  let ?x = "other_end e u" and ?c = "du + weight e"
  from I have dom: "dom (distances st) = set N" and T: "inv_tree E s st"
    and Q: "inv_queue t st" and D: "inv_done E u X st"
    by (simp_all add: search_inv_def)
  from T du have du0: "0 \<le> du" by (simp add: inv_tree_def)
  from pos e have w: "0 < weight e" by simp
  from du ex show ?thesis
  proof (cases rule: relax_cases[where e = e])
    case same
    have "inv_done E u (insert e X) st"
      unfolding inv_done_def
    proof (intro allI impI)
      fix v d assume vd: "distances st v = Some (Fin d)"
      with D have old: "(v, d) \<in> set (pq st) \<or> relaxed st v d (if v = u then X else set E)"
        by (simp add: inv_done_def)
      show "(v, d) \<in> set (pq st) \<or> relaxed st v d (if v = u then insert e X else set E)"
      proof (cases "v = u")
        case True
        with vd du have "d = du" by simp
        with True old same(1) show ?thesis by (auto simp: relaxed_def)
      next
        case False
        with old show ?thesis by simp
      qed
    qed
    with dom T Q same(2) show ?thesis by (simp add: search_inv_def)
  next
    case lower
    let ?st' = "st\<lparr>distances := (distances st)(?x \<mapsto> Fin ?c),
                    previous := (previous st)(?x \<mapsto> u),
                    pq := enqueue ?x ?c (pq st)\<rparr>"
    from lower(1) du w have xu: "?x \<noteq> u" by (auto elim!: lt_dist_cases)
    from lower(1) T du0 w have xs: "?x \<noteq> s" by (auto simp: inv_tree_def elim!: lt_dist_cases)
    from lower(1) have xdom: "?x \<in> dom (distances st)" by (auto elim!: lt_dist_cases)
    have below: "d' \<le> d \<Longrightarrow> ?c \<le> d" if "distances st ?x = Some (Fin d')" for d d'
      using lower(1) that by (auto elim!: lt_dist_cases)
    have dom': "dom (distances ?st') = set N"
      using dom xdom by auto
    have T': "inv_tree E s ?st'"
      unfolding inv_tree_def
    proof (intro conjI allI impI)
      show "distances ?st' s = Some (Fin 0)" using T xs by (simp add: inv_tree_def)
      show "previous ?st' s = None" using T xs by (simp add: inv_tree_def)
    next
      fix v d assume vd: "distances ?st' v = Some (Fin d)"
      show "0 \<le> d"
      proof (cases "v = ?x")
        case True with vd du0 w show ?thesis by simp
      next
        case False with vd T show ?thesis by (simp add: inv_tree_def)
      qed
    next
      fix v d assume vd: "distances ?st' v = Some (Fin d)" and vs: "v \<noteq> s"
      show "\<exists>p dp w. previous ?st' v = Some p \<and> distances ?st' p = Some (Fin dp) \<and>
              linked E p v w \<and> dp + w \<le> d"
      proof (cases "v = ?x")
        case True
        with vd have "d = ?c" by simp
        moreover have "linked E u ?x (weight e)" using e by (rule linked_other_end)
        ultimately show ?thesis using True du xu by auto
      next
        case False
        with vd have "distances st v = Some (Fin d)" by simp
        from inv_tree_pred[OF T this vs] obtain p dp w' where p: "previous st v = Some p"
          "distances st p = Some (Fin dp)" "linked E p v w'" "dp + w' \<le> d"
          by blast
        show ?thesis
        proof (cases "p = ?x")
          case True
          with p(2) have "?c \<le> dp" using below[of dp dp] by simp
          with p True False show ?thesis by auto
        next
          case False': False
          with p False show ?thesis by auto
        qed
      qed
    qed
    have Q': "inv_queue t ?st'"
      unfolding inv_queue_def
    proof (intro conjI allI impI ballI)
      show "sorted (map snd (pq ?st'))" by (simp add: sorted_enqueue)
    next
      fix vp assume "vp \<in> set (pq ?st')"
      then have "vp = (?x, ?c) \<or> vp \<in> set (pq st)" by (simp add: set_enqueue)
      then show "case vp of (v, p) \<Rightarrow> \<exists>d. distances ?st' v = Some (Fin d) \<and> d \<le> p"
      proof
        assume "vp = (?x, ?c)" then show ?thesis by simp
      next
        assume "vp \<in> set (pq st)"
        with Q obtain v p d where vp: "vp = (v, p)" "distances st v = Some (Fin d)" "d \<le> p"
          by (cases vp) (auto simp: inv_queue_def)
        show ?thesis
        proof (cases "v = ?x")
          case True
          with vp have "?c \<le> p" using below[of d p] by simp
          with True vp show ?thesis by simp
        next
          case False with vp show ?thesis by simp
        qed
      qed
    next
      fix d assume "distances ?st' t = Some (Fin d)"
      then show "(t, d) \<in> set (pq ?st')"
        using Q by (cases "t = ?x") (auto simp: inv_queue_def set_enqueue)
    qed
    have D': "inv_done E u (insert e X) ?st'"
      unfolding inv_done_def
    proof (intro allI impI)
      fix v d assume vd: "distances ?st' v = Some (Fin d)"
      have mono: "relaxed ?st' v d Y" if "relaxed st v d Y" for Y
        unfolding relaxed_def
      proof (intro ballI impI)
        fix e' assume e': "e' \<in> Y" "source e' = v \<or> target e' = v"
        with that have old: "\<not> lt_dist (d + weight e') (distances st (other_end e' v))"
          unfolding relaxed_def by blast
        show "\<not> lt_dist (d + weight e') (distances ?st' (other_end e' v))"
        proof (cases "other_end e' v = ?x")
          case True
          from xdom obtain dx where "distances st ?x = Some dx" by auto
          with old True lower(1) show ?thesis
            by (cases dx) auto
        next
          case False with old show ?thesis by simp
        qed
      qed
      show "(v, d) \<in> set (pq ?st') \<or> relaxed ?st' v d (if v = u then insert e X else set E)"
      proof (cases "v = ?x")
        case True with vd show ?thesis by (simp add: set_enqueue)
      next
        case False
        with vd have vd0: "distances st v = Some (Fin d)" by simp
        with D have old: "(v, d) \<in> set (pq st) \<or> relaxed st v d (if v = u then X else set E)"
          by (simp add: inv_done_def)
        show ?thesis
        proof (cases "(v, d) \<in> set (pq st)")
          case True then show ?thesis by (simp add: set_enqueue)
        next
          case nq: False
          with old have r: "relaxed st v d (if v = u then X else set E)" by simp
          show ?thesis
          proof (cases "v = u")
            case True
            with vd0 du have "d = du" by simp
            have "relaxed ?st' u du X" using r True \<open>d = du\<close> mono by simp
            moreover have "\<not> lt_dist (du + weight e) (distances ?st' (other_end e u))"
              by simp
            ultimately show ?thesis using True \<open>d = du\<close> by (auto simp: relaxed_def)
          next
            case False
            with r mono show ?thesis by simp
          qed
        qed
      qed
    qed
    from dom' T' Q' D' lower(2) show ?thesis by (simp add: search_inv_def)
  qed
qed

lemma relax_keeps:
  assumes T: "inv_tree E s st" and pos: "\<forall>e \<in> set E. 0 < weight e" and e: "e \<in> set E"
    and du: "distances st u = Some (Fin du)"
    and ex: "add_double du (weight e) = Fin (du + weight e)"
  shows "distances (relax u e st) u = Some (Fin du)"
proof -
  from pos e have w: "0 < weight e" by simp
  from du ex show ?thesis
  proof (cases rule: relax_cases[where e = e])
    case same with du show ?thesis by simp
  next
    case lower
    from lower(1) du w have "other_end e u \<noteq> u" by (auto elim!: lt_dist_cases)
    with lower(2) du show ?thesis by simp
  qed
qed

lemma fold_relax_inv:
  assumes pos: "\<forall>e \<in> set E. 0 < weight e"
    and ex: "\<forall>e \<in> set E. add_double du (weight e) = Fin (du + weight e)"
  shows "search_inv N E s t u X st \<Longrightarrow> set es \<subseteq> set E \<Longrightarrow>
     \<forall>e \<in> set es. source e = u \<or> target e = u \<Longrightarrow> distances st u = Some (Fin du) \<Longrightarrow>
     search_inv N E s t u (X \<union> set es) (fold (relax u) es st)"
proof (induction es arbitrary: X st)
  case Nil
  then show ?case by simp
next
  case (Cons e es)
  from Cons.prems have e: "e \<in> set E" "source e = u \<or> target e = u" by auto
  from ex e(1) have exe: "add_double du (weight e) = Fin (du + weight e)" by simp
  from Cons.prems(1) have T: "inv_tree E s st" by (simp add: search_inv_def)
  have 1: "search_inv N E s t u (insert e X) (relax u e st)"
    using Cons.prems(1) pos e Cons.prems(4) exe by (rule relax_inv)
  have 2: "distances (relax u e st) u = Some (Fin du)"
    using T pos e(1) Cons.prems(4) exe by (rule relax_keeps)
  have "search_inv N E s t u (insert e X \<union> set es) (fold (relax u) es (relax u e st))"
    using 1 Cons.prems(2,3) 2 by (intro Cons.IH) auto
  then show ?case by simp
qed

subsection \<open>Termination measure\<close>

lemma m_pq_update [simp]:
  "m_inf N (st\<lparr>pq := q\<rparr>) = m_inf N st" "m_sum N (st\<lparr>pq := q\<rparr>) = m_sum N st"
  by (simp_all add: m_inf_def m_sum_def)

lemma relax_measure:
  assumes dom: "dom (distances st) = set N"
    and nn: "\<forall>v d. distances st v = Some (Fin d) \<longrightarrow> 0 \<le> d"
    and w: "0 < weight e"
  shows "relax u e st = st \<or> (relax u e st, st) \<in> measures [m_inf N, m_sum N]"
proof (cases rule: relax_general[of u e st])
  case same
  then show ?thesis by simp
next
  case (lower du c)
  let ?x = "other_end e u"
  let ?D' = "(distances st)(?x \<mapsto> Fin c)"
  from nn lower(1) have "0 \<le> du" by blast
  with w have "0 \<le> du + weight e" by simp
  moreover from lower(2) have "round_double (du + weight e) = Fin c" by (simp add: add_double_def)
  ultimately have c0: "0 \<le> c" by (rule round_double_nonneg)
  from lower(3) have "?x \<in> dom (distances st)" by (auto elim!: lt_dist_cases)
  with dom have xN: "?x \<in> set N" by simp
  from lower(3) show ?thesis
  proof (cases rule: lt_dist_cases)
    case 1
    have "{v \<in> set N. ?D' v = Some Infinity} \<subset> {v \<in> set N. distances st v = Some Infinity}"
      using 1 xN by auto
    then have "card {v \<in> set N. ?D' v = Some Infinity}
        < card {v \<in> set N. distances st v = Some Infinity}"
      by (intro psubset_card_mono) simp_all
    then show ?thesis using lower(4) by (simp add: m_inf_def)
  next
    case (2 dx)
    let ?f = "\<lambda>D v. case D v of Some (Fin d) \<Rightarrow> nat d | _ \<Rightarrow> 0"
    have a: "{v \<in> set N. ?D' v = Some Infinity} = {v \<in> set N. distances st v = Some Infinity}"
      using 2 by auto
    have "(\<Sum>v \<in> set N. ?f ?D' v) = ?f ?D' ?x + (\<Sum>v \<in> set N - {?x}. ?f ?D' v)"
      using xN by (simp add: sum.remove)
    also have "(\<Sum>v \<in> set N - {?x}. ?f ?D' v) = (\<Sum>v \<in> set N - {?x}. ?f (distances st) v)"
      by (rule sum.cong) auto
    also have "?f ?D' ?x < ?f (distances st) ?x" using 2 c0 by simp
    finally have "(\<Sum>v \<in> set N. ?f ?D' v)
        < ?f (distances st) ?x + (\<Sum>v \<in> set N - {?x}. ?f (distances st) v)"
      by simp
    also have "\<dots> = (\<Sum>v \<in> set N. ?f (distances st) v)"
      using xN by (simp add: sum.remove)
    finally show ?thesis using lower(4) a by (simp add: m_inf_def m_sum_def)
  qed
qed

lemma fold_relax_measure:
  assumes pos: "\<forall>e \<in> set E. 0 < weight e"
    and ex: "\<forall>e \<in> set E. add_double du (weight e) = Fin (du + weight e)"
  shows "search_inv N E s t u X st \<Longrightarrow> set es \<subseteq> set E \<Longrightarrow>
     \<forall>e \<in> set es. source e = u \<or> target e = u \<Longrightarrow> distances st u = Some (Fin du) \<Longrightarrow>
     fold (relax u) es st = st \<or> (fold (relax u) es st, st) \<in> measures [m_inf N, m_sum N]"
proof (induction es arbitrary: X st)
  case Nil
  then show ?case by simp
next
  case (Cons e es)
  from Cons.prems have e: "e \<in> set E" "source e = u \<or> target e = u" by auto
  let ?st1 = "relax u e st"
  from ex e(1) have exe: "add_double du (weight e) = Fin (du + weight e)" by simp
  from Cons.prems(1) have T: "inv_tree E s st" and dom: "dom (distances st) = set N"
    by (simp_all add: search_inv_def)
  have 1: "search_inv N E s t u (insert e X) ?st1"
    using Cons.prems(1) pos e Cons.prems(4) exe by (rule relax_inv)
  have 2: "distances ?st1 u = Some (Fin du)"
    using T pos e(1) Cons.prems(4) exe by (rule relax_keeps)
  have nn: "\<forall>v d. distances st v = Some (Fin d) \<longrightarrow> 0 \<le> d"
    using T by (blast intro: inv_tree_nonneg)
  have a: "?st1 = st \<or> (?st1, st) \<in> measures [m_inf N, m_sum N]"
    using dom nn pos e(1) by (intro relax_measure) simp_all
  have b: "fold (relax u) es ?st1 = ?st1 \<or>
      (fold (relax u) es ?st1, ?st1) \<in> measures [m_inf N, m_sum N]"
    using 1 Cons.prems(2,3) 2 by (intro Cons.IH) auto
  from a b show ?case by auto
qed

subsection \<open>Walks against the invariant\<close>

lemma wpath_in_nodes:
  assumes "wpath E s q c x" and "s \<in> set N"
    and "\<forall>e \<in> set E. source e \<in> set N \<and> target e \<in> set N"
  shows "x \<in> set N"
  using assms by (induction rule: wpath.induct) (auto simp: linked_def)

lemma wpath_nonneg:
  assumes "wpath E s q c x" and "\<forall>e \<in> set E. 0 < weight e"
  shows "0 \<le> c"
  using assms by (induction rule: wpath.induct) (fastforce simp: linked_def)+

lemma wpath_ends: "wpath E s q c x \<Longrightarrow> q \<noteq> [] \<and> hd q = s \<and> last q = x"
  by (induction rule: wpath.induct) (auto simp: hd_append)

lemma walk_bound:
  assumes I: "search_inv N E s t u (set E) st"
    and pos: "\<forall>e \<in> set E. 0 < weight e"
    and ends: "\<forall>e \<in> set E. source e \<in> set N \<and> target e \<in> set N"
    and m: "\<forall>(v, p) \<in> set (pq st). m \<le> p"
    and walk: "wpath E s q c x"
  shows "(\<exists>dx. distances st x = Some (Fin dx) \<and> dx \<le> c) \<or> m \<le> c"
  using walk
proof (induction rule: wpath.induct)
  case start
  from I show ?case by (simp add: search_inv_def inv_tree_def)
next
  case (step p c a b w)
  from I have dom: "dom (distances st) = set N" and D: "inv_done E u (set E) st"
    by (simp_all add: search_inv_def)
  from step.hyps(2) obtain e where e: "e \<in> set E" "source e = a \<or> target e = a"
    "other_end e a = b" "weight e = w"
    by (rule linked_obtain_edge)
  with pos have w: "0 < w" by auto
  from e ends have "b \<in> set N" by (auto simp: other_end_def split: if_splits)
  with dom obtain db where db: "distances st b = Some db" by auto
  from step.IH show ?case
  proof
    assume "m \<le> c" with w show ?thesis by simp
  next
    assume "\<exists>da. distances st a = Some (Fin da) \<and> da \<le> c"
    then obtain da where da: "distances st a = Some (Fin da)" "da \<le> c" by blast
    with D have "(a, da) \<in> set (pq st) \<or> relaxed st a da (set E)"
      by (simp add: inv_done_def)
    then show ?thesis
    proof
      assume "(a, da) \<in> set (pq st)"
      with m have "m \<le> da" by auto
      with da w show ?thesis by simp
    next
      assume "relaxed st a da (set E)"
      with e have "\<not> lt_dist (da + w) (distances st b)"
        unfolding relaxed_def by blast
      with db da show ?thesis by (cases db) auto
    qed
  qed
qed

lemma walk_back_tree:
  assumes T: "inv_tree E s st" and pos: "\<forall>e \<in> set E. 0 < weight e"
    and ne: "distances st '''' = None"
  shows "distances st v = Some (Fin d) \<Longrightarrow>
    \<exists>q c. walk_back (previous st) (Some v) acc = Some (q @ acc) \<and> wpath E s q c v \<and> c \<le> d"
proof (induction "nat d" arbitrary: v d acc rule: less_induct)
  case less
  from less.prems ne have v: "v \<noteq> ''''" by auto
  show ?case
  proof (cases "v = s")
    case True
    with T have "previous st v = None" by (simp add: inv_tree_def)
    with v have "walk_back (previous st) (Some v) acc = Some ([s] @ acc)"
      using True by (simp add: walk_back.simps)
    moreover have "wpath E s [s] 0 v" using True by (simp add: wpath.start)
    moreover have "0 \<le> d" using T less.prems by (rule inv_tree_nonneg)
    ultimately show ?thesis by blast
  next
    case False
    from inv_tree_pred[OF T less.prems False] obtain p dp w where p:
      "previous st v = Some p" "distances st p = Some (Fin dp)" "linked E p v w" "dp + w \<le> d"
      by blast
    from p(3) pos have w: "0 < w" by (auto simp: linked_def)
    from T p(2) have "0 \<le> dp" by (rule inv_tree_nonneg)
    with p(4) w have "nat dp < nat d" by simp
    from less.hyps[OF this p(2), of "v # acc"] obtain q c where q:
      "walk_back (previous st) (Some p) (v # acc) = Some (q @ v # acc)" "wpath E s q c p" "c \<le> dp"
      by blast
    from v p(1) q(1) have "walk_back (previous st) (Some v) acc = Some ((q @ [v]) @ acc)"
      by (subst walk_back.simps) simp
    moreover from q(2) p(3) have "wpath E s (q @ [v]) (c + w) v" by (rule wpath.step)
    moreover from q(3) p(4) have "c + w \<le> d" by simp
    ultimately show ?thesis by blast
  qed
qed

subsection \<open>Distances that keep the sums exact\<close>

lemma fin_count_pq [simp]: "fin_count N (st\<lparr>pq := q\<rparr>) = fin_count N st"
  by (simp add: fin_count_def)

lemma fin_count_le: "fin_count N st \<le> length N"
proof -
  have "fin_count N st \<le> card (set N)"
    unfolding fin_count_def by (rule card_mono) auto
  also have "\<dots> \<le> length N" by (rule card_length)
  finally show ?thesis .
qed

lemma bound_exact:
  assumes B: "inv_bound N st" and ex: "exact_sums N E" and e: "e \<in> set E"
    and du: "distances st u = Some (Fin du)" "0 \<le> du" and w: "0 < weight e"
  shows "add_double du (weight e) = Fin (du + weight e)"
proof -
  let ?L = "int (length N)" and ?k = "int (fin_count N st)" and ?B = "(2 ^ 53 - 1) :: int"
  from B du(1) have 1: "?L * du \<le> (?k - 1) * ?B" by (simp add: inv_bound_def)
  from ex e have "?L * weight e < 2 ^ 53" unfolding exact_sums_def by blast
  then have 2: "?L * weight e \<le> ?B" by simp
  have k: "?k \<le> ?L" using fin_count_le[of N st] by simp
  have "?L * (du + weight e) = ?L * du + ?L * weight e" by (simp add: distrib_left)
  also have "\<dots> \<le> (?k - 1) * ?B + ?B" using 1 2 by simp
  also have "\<dots> = ?k * ?B" by (simp add: algebra_simps)
  also have "\<dots> \<le> ?L * ?B" using k by (intro mult_right_mono) simp_all
  finally have le: "?L * (du + weight e) \<le> ?L * ?B" .
  have "0 < ?L"
  proof (rule ccontr)
    assume "\<not> 0 < ?L"
    then have "?L * weight e = 0" by simp
    moreover have "?L * (du + weight e) = 0" using \<open>\<not> 0 < ?L\<close> by simp
    ultimately show False using du(2) w 1 k \<open>\<not> 0 < ?L\<close> fin_count_le[of N st]
      by (simp add: inv_bound_def)
  qed
  with le have "du + weight e \<le> ?B" by (simp add: mult_le_cancel_left_pos)
  then have "du + weight e < 2 ^ 53" by simp
  moreover have "0 \<le> du + weight e" using du(2) w by simp
  ultimately show ?thesis unfolding add_double_def by (rule round_double_exact[rotated])
qed

lemma relax_bound:
  assumes B: "inv_bound N st" and dom: "dom (distances st) = set N"
    and xs: "exact_sums N E" and e: "e \<in> set E"
    and du: "distances st u = Some (Fin du)"
    and ex: "add_double du (weight e) = Fin (du + weight e)"
  shows "inv_bound N (relax u e st)"
  using du ex
proof (cases rule: relax_cases[where e = e])
  case same
  with B show ?thesis by simp
next
  case lower
  let ?x = "other_end e u" and ?c = "du + weight e"
  let ?L = "int (length N)" and ?B = "(2 ^ 53 - 1) :: int"
  let ?st' = "relax u e st"
  let ?F = "\<lambda>st. {v \<in> set N. \<exists>d. distances st v = Some (Fin d)}"
  from lower(1) have "?x \<in> dom (distances st)" by (auto elim!: lt_dist_cases)
  with dom have xN: "?x \<in> set N" by simp
  have D': "distances ?st' = (distances st)(?x \<mapsto> Fin ?c)" using lower(2) by simp
  from B du have 1: "?L * du \<le> (int (fin_count N st) - 1) * ?B" by (simp add: inv_bound_def)
  from xs e have "?L * weight e < 2 ^ 53" unfolding exact_sums_def by blast
  then have 2: "?L * weight e \<le> ?B" by simp
  have c: "?L * ?c \<le> int (fin_count N st) * ?B"
    using 1 2 by (simp add: algebra_simps)
  have F': "?F ?st' = insert ?x (?F st)" using xN by (auto simp: D')
  have mono: "fin_count N st \<le> fin_count N ?st'"
    unfolding fin_count_def F' by (rule card_mono) auto
  have xc: "?L * ?c \<le> (int (fin_count N ?st') - 1) * ?B"
    using lower(1)
  proof (cases rule: lt_dist_cases)
    case 1
    then have "?x \<notin> ?F st" by simp
    then have "fin_count N ?st' = Suc (fin_count N st)"
      unfolding fin_count_def F' by simp
    with c show ?thesis by simp
  next
    case (2 dx)
    with B have "?L * dx \<le> (int (fin_count N st) - 1) * ?B" by (simp add: inv_bound_def)
    moreover have "?L * ?c \<le> ?L * dx" using 2(2) by (intro mult_left_mono) simp_all
    moreover have "(int (fin_count N st) - 1) * ?B \<le> (int (fin_count N ?st') - 1) * ?B"
      using mono by (intro mult_right_mono) simp_all
    ultimately show ?thesis by linarith
  qed
  show ?thesis
    unfolding inv_bound_def
  proof (intro allI impI)
    fix v d assume vd: "distances ?st' v = Some (Fin d)"
    show "?L * d \<le> (int (fin_count N ?st') - 1) * ?B"
    proof (cases "v = ?x")
      case True
      with vd have "d = ?c" by (simp add: D')
      with xc show ?thesis by simp
    next
      case False
      with vd have "distances st v = Some (Fin d)" by (simp add: D')
      with B have "?L * d \<le> (int (fin_count N st) - 1) * ?B" by (simp add: inv_bound_def)
      moreover have "(int (fin_count N st) - 1) * ?B \<le> (int (fin_count N ?st') - 1) * ?B"
        using mono by (intro mult_right_mono) simp_all
      ultimately show ?thesis by linarith
    qed
  qed
qed

lemma fold_relax_bound:
  assumes pos: "\<forall>e \<in> set E. 0 < weight e" and xs: "exact_sums N E"
    and ex: "\<forall>e \<in> set E. add_double du (weight e) = Fin (du + weight e)"
  shows "inv_bound N st \<Longrightarrow> search_inv N E s t u X st \<Longrightarrow> set es \<subseteq> set E \<Longrightarrow>
     \<forall>e \<in> set es. source e = u \<or> target e = u \<Longrightarrow> distances st u = Some (Fin du) \<Longrightarrow>
     inv_bound N (fold (relax u) es st)"
proof (induction es arbitrary: X st)
  case Nil
  then show ?case by simp
next
  case (Cons e es)
  from Cons.prems have e: "e \<in> set E" "source e = u \<or> target e = u" by auto
  from ex e(1) have exe: "add_double du (weight e) = Fin (du + weight e)" by simp
  from Cons.prems(2) have T: "inv_tree E s st" and dom: "dom (distances st) = set N"
    by (simp_all add: search_inv_def)
  have 0: "inv_bound N (relax u e st)"
    using Cons.prems(1) dom xs e(1) Cons.prems(5) exe by (rule relax_bound)
  have 1: "search_inv N E s t u (insert e X) (relax u e st)"
    using Cons.prems(2) pos e Cons.prems(5) exe by (rule relax_inv)
  have 2: "distances (relax u e st) u = Some (Fin du)"
    using T pos e(1) Cons.prems(5) exe by (rule relax_keeps)
  have "inv_bound N (fold (relax u) es (relax u e st))"
    using 0 1 Cons.prems(3,4) 2 by (intro Cons.IH[where X = "insert e X"]) auto
  then show ?case by simp
qed

subsection \<open>What holds whatever the rounding\<close>

lemma relax_reach:
  assumes R: "inv_reach N E s st" and pos: "\<forall>e \<in> set E. 0 < weight e"
    and e: "e \<in> set E" "source e = u \<or> target e = u"
  shows "inv_reach N E s (relax u e st)"
proof (cases rule: relax_general[of u e st])
  case same
  with R show ?thesis by simp
next
  case (lower du c)
  let ?x = "other_end e u"
  from R have dom: "dom (distances st) = set N"
    and fin: "\<forall>v d. distances st v = Some (Fin d) \<longrightarrow> 0 \<le> d \<and> (\<exists>q c. wpath E s q c v)"
    and qu: "\<forall>(v, p) \<in> set (pq st). \<exists>d. distances st v = Some (Fin d)"
    by (simp_all add: inv_reach_def)
  from pos e have w: "0 < weight e" by simp
  from fin lower(1) obtain q cu where u: "0 \<le> du" "wpath E s q cu u" by blast
  from u(1) w have "0 \<le> du + weight e" by simp
  moreover from lower(2) have "round_double (du + weight e) = Fin c" by (simp add: add_double_def)
  ultimately have c0: "0 \<le> c" by (rule round_double_nonneg)
  have "linked E u ?x (weight e)" using e by (rule linked_other_end)
  with u(2) have wx: "wpath E s (q @ [?x]) (cu + weight e) ?x" by (rule wpath.step)
  from lower(3) have xdom: "?x \<in> dom (distances st)" by (auto elim!: lt_dist_cases)
  have "dom (distances (relax u e st)) = set N"
    using dom xdom lower(4) by auto
  moreover have "\<forall>v d. distances (relax u e st) v = Some (Fin d) \<longrightarrow>
      0 \<le> d \<and> (\<exists>q c. wpath E s q c v)"
  proof (intro allI impI)
    fix v d assume vd: "distances (relax u e st) v = Some (Fin d)"
    show "0 \<le> d \<and> (\<exists>q c. wpath E s q c v)"
    proof (cases "v = ?x")
      case True
      with vd lower(4) have "d = c" by simp
      with c0 wx True show ?thesis by blast
    next
      case False
      with vd lower(4) have "distances st v = Some (Fin d)" by simp
      with fin show ?thesis by blast
    qed
  qed
  moreover have "\<forall>(v, p) \<in> set (pq (relax u e st)). \<exists>d. distances (relax u e st) v = Some (Fin d)"
  proof (intro ballI)
    fix vp assume "vp \<in> set (pq (relax u e st))"
    with lower(4) have "vp = (?x, c) \<or> vp \<in> set (pq st)" by (simp add: set_enqueue)
    then show "case vp of (v, p) \<Rightarrow> \<exists>d. distances (relax u e st) v = Some (Fin d)"
    proof
      assume "vp = (?x, c)"
      with lower(4) show ?thesis by simp
    next
      assume "vp \<in> set (pq st)"
      with qu obtain v p d where "vp = (v, p)" "distances st v = Some (Fin d)"
        by (cases vp) auto
      with lower(4) show ?thesis by (cases "v = ?x") simp_all
    qed
  qed
  ultimately show ?thesis by (simp add: inv_reach_def)
qed

lemma fold_relax_reach:
  assumes pos: "\<forall>e \<in> set E. 0 < weight e"
  shows "inv_reach N E s st \<Longrightarrow> set es \<subseteq> set E \<Longrightarrow>
     \<forall>e \<in> set es. source e = u \<or> target e = u \<Longrightarrow>
     inv_reach N E s (fold (relax u) es st) \<and>
     (fold (relax u) es st = st \<or> (fold (relax u) es st, st) \<in> measures [m_inf N, m_sum N])"
proof (induction es arbitrary: st)
  case Nil
  then show ?case by simp
next
  case (Cons e es)
  from Cons.prems have e: "e \<in> set E" "source e = u \<or> target e = u" by auto
  let ?st1 = "relax u e st"
  from Cons.prems(1) have dom: "dom (distances st) = set N"
    and nn: "\<forall>v d. distances st v = Some (Fin d) \<longrightarrow> 0 \<le> d"
    by (auto simp: inv_reach_def)
  have 1: "inv_reach N E s ?st1" using Cons.prems(1) pos e by (rule relax_reach)
  have a: "?st1 = st \<or> (?st1, st) \<in> measures [m_inf N, m_sum N]"
    using dom nn pos e(1) by (intro relax_measure) simp_all
  have b: "inv_reach N E s (fold (relax u) es ?st1) \<and>
     (fold (relax u) es ?st1 = ?st1 \<or>
      (fold (relax u) es ?st1, ?st1) \<in> measures [m_inf N, m_sum N])"
    using 1 Cons.prems(2,3) by (intro Cons.IH) auto
  from a b show ?case by auto
qed

text \<open>Without a walk to the target the loop ends with the empty result.\<close>

lemma search_loop_unreachable:
  assumes pos: "\<forall>e \<in> set E. 0 < weight e" and no: "\<forall>q c. \<not> wpath E s q c t"
  shows "inv_reach N E s st \<Longrightarrow> search_loop E t st = Some []"
proof (induction st rule: wf_induct_rule[OF wf_measures[of "[m_inf N, m_sum N, m_len]"]])
  case (1 st)
  note R = "1.prems"
  show ?case
  proof (cases "pq st")
    case Nil
    then show ?thesis by (subst search_loop.simps) simp
  next
    case (Cons vp rest)
    obtain v p where vp: "vp = (v, p)" by (cases vp)
    with Cons have q: "pq st = (v, p) # rest" by simp
    from R q obtain dv where dv: "distances st v = Some (Fin dv)"
      by (auto simp: inv_reach_def)
    with R have "\<exists>q c. wpath E s q c v" unfolding inv_reach_def by blast
    with no have vt: "v \<noteq> t" by blast
    let ?st0 = "st\<lparr>pq := rest\<rparr>"
    have R0: "inv_reach N E s ?st0" using R q by (auto simp: inv_reach_def)
    have m0: "(?st0, st) \<in> measures [m_inf N, m_sum N, m_len]"
      using q by (simp add: m_len_def)
    show ?thesis
    proof (cases "v \<noteq> '''' \<and> distances st v \<noteq> Some Infinity")
      case True
      let ?es = "filter (\<lambda>e. source e = v \<or> target e = v) E"
      let ?st' = "fold (relax v) ?es ?st0"
      have f: "inv_reach N E s ?st' \<and>
          (?st' = ?st0 \<or> (?st', ?st0) \<in> measures [m_inf N, m_sum N])"
        using pos R0 by (rule fold_relax_reach) auto
      then have "(?st', st) \<in> measures [m_inf N, m_sum N, m_len]"
        using q by (auto simp: m_len_def)
      from "1.IH"[OF this] f have "search_loop E t ?st' = Some []" by simp
      then show ?thesis using q vt True by (subst search_loop.simps) simp
    next
      case False
      from "1.IH"[OF m0 R0] have "search_loop E t ?st0 = Some []" .
      then show ?thesis using q vt False by (subst search_loop.simps) auto
    qed
  qed
qed

subsection \<open>The main loop returns, with a cheapest walk or with nothing\<close>

lemma inv_dequeue:
  assumes I: "search_inv N E s t u (set E) st" and q: "pq st = (v, p) # rest" and vt: "v \<noteq> t"
  shows "search_inv N E s t v {} (st\<lparr>pq := rest\<rparr>)"
proof -
  from I have dom: "dom (distances st) = set N" and T: "inv_tree E s st"
    and Q: "inv_queue t st" and D: "inv_done E u (set E) st"
    by (simp_all add: search_inv_def)
  have "inv_tree E s (st\<lparr>pq := rest\<rparr>)" using T by (simp add: inv_tree_def)
  moreover have "inv_queue t (st\<lparr>pq := rest\<rparr>)"
    using Q q vt by (auto simp: inv_queue_def)
  moreover have "inv_done E v {} (st\<lparr>pq := rest\<rparr>)"
    unfolding inv_done_def
  proof (intro allI impI)
    fix x d assume "distances (st\<lparr>pq := rest\<rparr>) x = Some (Fin d)"
    then have "(x, d) \<in> set (pq st) \<or> relaxed st x d (set E)"
      using D by (simp add: inv_done_def)
    then show "(x, d) \<in> set (pq (st\<lparr>pq := rest\<rparr>)) \<or>
        relaxed (st\<lparr>pq := rest\<rparr>) x d (if x = v then {} else set E)"
      using q by (cases "x = v") (auto simp: relaxed_def)
  qed
  ultimately show ?thesis using dom by (simp add: search_inv_def)
qed

lemma inv_expanded:
  assumes "search_inv N E s t v (set (filter (\<lambda>e. source e = v \<or> target e = v) E)) st"
  shows "search_inv N E s t u (set E) st"
proof -
  have "relaxed st x d (set E)"
    if "relaxed st x d (if x = v then set (filter (\<lambda>e. source e = v \<or> target e = v) E) else set E)"
    for x d
    using that by (cases "x = v") (auto simp: relaxed_def)
  then have "inv_done E v (set (filter (\<lambda>e. source e = v \<or> target e = v) E)) st \<Longrightarrow>
      inv_done E u (set E) st"
    unfolding inv_done_def if_cancel by blast
  with assms show ?thesis unfolding search_inv_def by blast
qed

lemma search_loop_total:
  assumes pos: "\<forall>e \<in> set E. 0 < weight e"
    and ends: "\<forall>e \<in> set E. source e \<in> set N \<and> target e \<in> set N"
    and ne: "'''' \<notin> set N"
    and xs: "exact_sums N E"
  shows "search_inv N E s t u (set E) st \<Longrightarrow> inv_bound N st \<Longrightarrow>
    \<exists>r. search_loop E t st = Some r \<and> post E s t r"
proof (induction st arbitrary: u
    rule: wf_induct_rule[OF wf_measures[of "[m_inf N, m_sum N, m_len]"]])
  case (1 st)
  note I = "1.prems"(1) and B = "1.prems"(2)
  from I have dom: "dom (distances st) = set N" and T: "inv_tree E s st"
    and Q: "inv_queue t st"
    by (simp_all add: search_inv_def)
  from dom ne have ne': "distances st '''' = None" by auto
  show ?case
  proof (cases "pq st")
    case Nil
    have "\<not> wpath E s q c t" for q c
    proof
      assume "wpath E s q c t"
      from walk_bound[OF I pos ends _ this, of "c + 1"] Nil
      obtain dt where "distances st t = Some (Fin dt)" by auto
      with Q Nil show False by (simp add: inv_queue_def)
    qed
    moreover have "search_loop E t st = Some []"
      using Nil by (subst search_loop.simps) simp
    ultimately show ?thesis by (simp add: post_def)
  next
    case (Cons vp rest)
    obtain v p where vp: "vp = (v, p)" by (cases vp)
    with Cons have q: "pq st = (v, p) # rest" by simp
    from Q q obtain dv where dv: "distances st v = Some (Fin dv)" "dv \<le> p"
      by (auto simp: inv_queue_def)
    from Q q have least: "\<forall>(x, y) \<in> set (pq st). p \<le> y"
      by (auto simp: inv_queue_def)
    show ?thesis
    proof (cases "v = t")
      case True
      from walk_back_tree[OF T pos ne' dv(1), of "[]"] obtain r c where r:
        "walk_back (previous st) (Some v) [] = Some r" "wpath E s r c v" "c \<le> dv"
        by auto
      have "c \<le> c'" if "wpath E s q' c' t" for q' c'
        using walk_bound[OF I pos ends least that] dv r(3) True by auto
      with r(2) True have "post E s t r" by (auto simp: post_def)
      moreover have "search_loop E t st = Some r"
        using q True r(1) by (subst search_loop.simps) simp
      ultimately show ?thesis by blast
    next
      case False
      let ?es = "filter (\<lambda>e. source e = v \<or> target e = v) E"
      let ?st0 = "st\<lparr>pq := rest\<rparr>"
      let ?st' = "fold (relax v) ?es ?st0"
      from dv dom ne have v: "v \<noteq> ''''" by auto
      have I0: "search_inv N E s t v {} ?st0" using I q False by (rule inv_dequeue)
      have dv0: "distances ?st0 v = Some (Fin dv)" using dv by simp
      from T dv(1) have dv_nonneg: "0 \<le> dv" by (rule inv_tree_nonneg)
      have ex: "\<forall>e \<in> set E. add_double dv (weight e) = Fin (dv + weight e)"
        using B xs dv(1) dv_nonneg pos by (blast intro: bound_exact)
      have B0: "inv_bound N ?st0" using B by (simp add: inv_bound_def)
      have "search_inv N E s t v ({} \<union> set ?es) ?st'"
        using pos ex I0 _ _ dv0 by (rule fold_relax_inv) auto
      then have I': "search_inv N E s t u (set E) ?st'" by (simp add: inv_expanded)
      have B': "inv_bound N ?st'"
        using pos xs ex B0 I0 _ _ dv0 by (rule fold_relax_bound) auto
      have "?st' = ?st0 \<or> (?st', ?st0) \<in> measures [m_inf N, m_sum N]"
        using pos ex I0 _ _ dv0 by (rule fold_relax_measure) auto
      then have "(?st', st) \<in> measures [m_inf N, m_sum N, m_len]"
        using q by (auto simp: m_len_def)
      from "1.IH"[OF this I' B'] obtain r where r: "search_loop E t ?st' = Some r" "post E s t r"
        by blast
      have "search_loop E t st = Some r"
        using q False v dv r(1) by (subst search_loop.simps) simp
      with r(2) show ?thesis by blast
    qed
  qed
qed

lemma init_distances:
  "fold (\<lambda>node D. D(node \<mapsto> (if node = s then Fin 0 else Infinity))) N D0 v =
     (if v \<in> set N then Some (if v = s then Fin 0 else Infinity) else D0 v)"
  by (induction N arbitrary: D0) auto

lemma wpath_links:
  "wpath E s q c x \<Longrightarrow> Suc i < length q \<Longrightarrow> \<exists>w. linked E (q ! i) (q ! Suc i) w"
proof (induction arbitrary: i rule: wpath.induct)
  case start
  then show ?case by simp
next
  case (step p c a b w)
  from step.hyps(1) have p: "p \<noteq> []" "last p = a" by (simp_all add: wpath_ends)
  show ?case
  proof (cases "Suc i < length p")
    case True
    with step.IH[OF True] show ?thesis by (simp add: nth_append)
  next
    case False
    with step.prems have i: "Suc i = length p" by simp
    with p have "p ! i = a" by (metis last_conv_nth diff_Suc_1)
    with i step.hyps(2) show ?thesis by (auto simp: nth_append)
  qed
qed

lemma dijkstra_spec:
  assumes wf: "wf_graph N E" and xs: "exact_sums N E" and s: "s \<in> set N" and t: "t \<noteq> ''''"
  shows "\<exists>r. dijkstra N E s t = Some r \<and> post E s t r"
proof -
  from wf have pos: "\<forall>e \<in> set E. 0 < weight e"
    and ends: "\<forall>e \<in> set E. source e \<in> set N \<and> target e \<in> set N"
    and ne: "'''' \<notin> set N"
    by (auto simp: wf_graph_def)
  let ?D = "fold (\<lambda>node D. D(node \<mapsto> (if node = s then Fin 0 else Infinity))) N Map.empty"
  let ?st = "\<lparr>distances = ?D, previous = Map.empty, pq = [(s, 0)]\<rparr>"
  have D: "?D v = (if v \<in> set N then Some (if v = s then Fin 0 else Infinity) else None)" for v
    by (simp add: init_distances)
  from s ne have s0: "s \<noteq> ''''" by auto
  have eq: "dijkstra N E s t = search_loop E t ?st"
    using s s0 t by (auto simp: dijkstra_def D enqueue_def Let_def)
  have "dom (distances ?st) = set N"
    by (auto simp: D dom_def)
  moreover have "inv_tree E s ?st"
    using s by (auto simp: inv_tree_def D split: if_splits)
  moreover have "inv_queue t ?st"
    using s by (auto simp: inv_queue_def D split: if_splits)
  moreover have "inv_done E s (set E) ?st"
    by (auto simp: inv_done_def D split: if_splits)
  ultimately have I: "search_inv N E s t s (set E) ?st"
    by (simp add: search_inv_def)
  have "inv_bound N ?st"
    unfolding inv_bound_def
  proof (intro allI impI)
    fix v d assume vd: "distances ?st v = Some (Fin d)"
    then have d: "d = 0" by (simp add: D split: if_splits)
    have "{v \<in> set N. \<exists>d. distances ?st v = Some (Fin d)} = {s}"
      using s by (auto simp: D split: if_splits)
    then have "fin_count N ?st = 1" by (simp only: fin_count_def) simp
    with d show "int (length N) * d \<le> (int (fin_count N ?st) - 1) * (2 ^ 53 - 1)" by simp
  qed
  from search_loop_total[OF pos ends ne xs I this] eq show ?thesis by simp
qed

section \<open>The claims about the path search\<close>

lemma dijkstra_start:
  assumes "s \<in> set N" and "s \<noteq> ''''" and "t \<noteq> ''''"
  shows "dijkstra N E s t =
    search_loop E t
      \<lparr>distances = fold (\<lambda>node D. D(node \<mapsto> (if node = s then Fin 0 else Infinity))) N Map.empty,
         previous = Map.empty, pq = [(s, 0)]\<rparr>"
  using assms by (auto simp: dijkstra_def init_distances enqueue_def Let_def)

lemma init_reach:
  assumes "s \<in> set N"
  shows "inv_reach N E s
      \<lparr>distances = fold (\<lambda>node D. D(node \<mapsto> (if node = s then Fin 0 else Infinity))) N Map.empty,
         previous = Map.empty, pq = [(s, 0)]\<rparr>"
proof -
  have "wpath E s [s] 0 s" by (rule wpath.start)
  then have "\<exists>q c. wpath E s q c s" by blast
  with assms show ?thesis
    by (auto simp: inv_reach_def init_distances dom_def split: if_splits)
qed

lemma wpath_single: "wpath E s [x] c y \<Longrightarrow> c = 0 \<and> x = s \<and> y = s"
  by (erule wpath.cases) (auto dest: wpath_ends)

lemma wpath_pair:
  assumes "wpath E s [x, y] c z"
  shows "linked E x y c"
proof -
  from assms obtain p c' a w where
    st: "[x, y] = p @ [z]" "c = c' + w" "wpath E s p c' a" "linked E a z w"
    by (cases rule: wpath.cases) auto
  from st(1) have p: "p = [x]" and z: "z = y" by (cases p; simp)+
  from st(3) p have "c' = 0" "a = x" using wpath_single wpath_ends by fastforce+
  with st(2,4) z show ?thesis by simp
qed

lemma wf_graph_big: "wf_graph stations3 links_big"
  by (simp add: wf_graph_def stations3_def links_big_def)

lemma rounded_path_big: "dijkstra stations3 links_big ''A'' ''C'' = Some [''A'', ''C'']"
  by code_simp

lemma cheaper_walk_big: "wpath links_big ''A'' [''A'', ''B'', ''C''] 9007199254740995 ''C''"
proof -
  have ab: "linked links_big ''A'' ''B'' 9007199254740994"
    and bc: "linked links_big ''B'' ''C'' 1"
    by (simp_all add: linked_def links_big_def)
  from wpath.start[of links_big "''A''"] ab
  have "wpath links_big ''A'' ([''A''] @ [''B'']) (0 + 9007199254740994) ''B''"
    by (rule wpath.step)
  from this bc
  have "wpath links_big ''A'' (([''A''] @ [''B'']) @ [''C'']) ((0 + 9007199254740994) + 1) ''C''"
    by (rule wpath.step)
  then show ?thesis by simp
qed

text \<open>
  Claim C1 says that the returned sequence has the least total weight for every graph with
  positive integer weights. It fails where the sums are no longer exact: with A-B =
  9007199254740994, B-C = 1 and A-C = 9007199254740996 the candidate for C through B rounds
  to 9007199254740996, which is not below the distance already found, so the result is A, C
  with the weight 9007199254740996, while the walk A, B, C weighs 9007199254740995.
\<close>

theorem computePath_rounding_counterexample:
  "wf_graph stations3 links_big \<and>
   dijkstra stations3 links_big ''A'' ''C'' = Some [''A'', ''C''] \<and>
   \<not> (\<exists>c. wpath links_big ''A'' [''A'', ''C''] c ''C'' \<and> c \<le> 9007199254740995) \<and>
   wpath links_big ''A'' [''A'', ''B'', ''C''] 9007199254740995 ''C''"
proof -
  have "\<not> (\<exists>c. wpath links_big ''A'' [''A'', ''C''] c ''C'' \<and> c \<le> 9007199254740995)"
  proof
    assume "\<exists>c. wpath links_big ''A'' [''A'', ''C''] c ''C'' \<and> c \<le> 9007199254740995"
    then obtain c where c: "wpath links_big ''A'' [''A'', ''C''] c ''C''" "c \<le> 9007199254740995"
      by blast
    from c(1) have "linked links_big ''A'' ''C'' c" by (rule wpath_pair)
    then have "c = 9007199254740996" by (simp add: linked_def links_big_def)
    with c(2) show False by simp
  qed
  with wf_graph_big rounded_path_big cheaper_walk_big show ?thesis by blast
qed

text \<open>
  Claim C1, amended. In a well-formed graph (non-empty station ids, links between stations
  of the graph, positive integer weights) whose weights keep every sum exact (the number of
  stations times any weight is below \<open>2^53\<close>), for stations \<open>s\<close> and \<open>e\<close> of the graph with
  \<open>e\<close> reachable from \<open>s\<close>, \<open>dijkstra\<close> returns a sequence that starts with \<open>s\<close>, ends
  with \<open>e\<close>, whose consecutive elements are linked, and whose summed link weights are the
  least total weight of any walk from \<open>s\<close> to \<open>e\<close>.
\<close>

theorem computePath_shortest:
  assumes "wf_graph N E" and "exact_sums N E" and "s \<in> set N" and "e \<in> set N"
    and "wpath E s q0 c0 e"
  shows "\<exists>p c. dijkstra N E s e = Some p \<and> p \<noteq> [] \<and> hd p = s \<and> last p = e \<and>
           (\<forall>i. Suc i < length p \<longrightarrow> (\<exists>w. linked E (p ! i) (p ! Suc i) w)) \<and>
           wpath E s p c e \<and> (\<forall>q c'. wpath E s q c' e \<longrightarrow> c \<le> c')"
proof -
  from assms(1,4) have "e \<noteq> ''''" by (auto simp: wf_graph_def)
  from dijkstra_spec[OF assms(1,2,3) this] obtain r where r:
    "dijkstra N E s e = Some r" "post E s e r" by blast
  from r(2) assms(5) obtain c where c: "wpath E s r c e" "\<forall>q c'. wpath E s q c' e \<longrightarrow> c \<le> c'"
    unfolding post_def by blast
  from c(1) have "r \<noteq> []" "hd r = s" "last r = e" by (simp_all add: wpath_ends)
  moreover from c(1) have "\<forall>i. Suc i < length r \<longrightarrow> (\<exists>w. linked E (r ! i) (r ! Suc i) w)"
    by (blast intro: wpath_links)
  ultimately show ?thesis using r(1) c by blast
qed

lemma exact_sums3: "exact_sums stations3 links3"
  by (simp add: exact_sums_def stations3_def links3_def)

lemma wf_graph3: "wf_graph stations3 links3"
  by (simp add: wf_graph_def stations3_def links3_def)

lemma direct_walk3: "wpath links3 ''A'' [''A'', ''C''] 5 ''C''"
proof -
  have "linked links3 ''A'' ''C'' 5" by (simp add: linked_def links3_def)
  with wpath.start[of links3 "''A''"] have "wpath links3 ''A'' ([''A''] @ [''C'']) (0 + 5) ''C''"
    by (rule wpath.step)
  then show ?thesis by simp
qed

theorem computePath_shortest_witness:
  "wf_graph stations3 links3 \<and> exact_sums stations3 links3 \<and>
   wpath links3 ''A'' [''A'', ''C''] 5 ''C'' \<and>
   (\<exists>p c. dijkstra stations3 links3 ''A'' ''C'' = Some p \<and> hd p = ''A'' \<and> last p = ''C'' \<and>
      wpath links3 ''A'' p c ''C'' \<and> c \<le> 5)"
proof -
  have "''A'' \<in> set stations3" "''C'' \<in> set stations3" by (simp_all add: stations3_def)
  from computePath_shortest[OF wf_graph3 exact_sums3 this direct_walk3]
    direct_walk3 wf_graph3 exact_sums3
  show ?thesis by blast
qed

text \<open>
  Claim C7. For every graph and every station \<open>s\<close> of it (a non-empty id),
  \<open>dijkstra\<close> from \<open>s\<close> to \<open>s\<close> returns the one-element path \<open>[s]\<close>, a walk of cost 0.
\<close>

theorem computePath_same_station:
  assumes "s \<in> set N" and "s \<noteq> ''''"
  shows "dijkstra N E s s = Some [s] \<and> wpath E s [s] 0 s"
proof -
  let ?D = "fold (\<lambda>node D. D(node \<mapsto> (if node = s then Fin 0 else Infinity))) N Map.empty"
  have "?D s = Some (Fin 0)" using assms(1) by (simp add: init_distances)
  then have "dijkstra N E s s = search_loop E s \<lparr>distances = ?D, previous = Map.empty, pq = [(s, 0)]\<rparr>"
    using assms by (auto simp: dijkstra_def enqueue_def Let_def)
  also have "\<dots> = walk_back Map.empty (Some s) []"
    by (subst search_loop.simps) simp
  also have "\<dots> = walk_back Map.empty None [s]"
    using assms(2) by (subst walk_back.simps) simp
  also have "\<dots> = Some [s]"
    by (subst walk_back.simps) simp
  finally show ?thesis by (simp add: wpath.start)
qed

theorem computePath_same_station_witness:
  "''B'' \<in> set stations3 \<and> dijkstra stations3 links3 ''B'' ''B'' = Some [''B'']"
  using computePath_same_station[of "''B''" stations3 links3] by (simp add: stations3_def)

text \<open>
  Claim C8. In a well-formed graph \<open>dijkstra\<close> returns the empty sequence whenever the start
  or the end is not a station of the graph or no walk leads from the start to the end; the
  search returns this value normally (\<open>Some []\<close>: it terminates, and the model has no
  error branch because the code has no throwing operation).
\<close>

theorem computePath_empty:
  assumes "wf_graph N E"
    and "s \<notin> set N \<or> e \<notin> set N \<or> (\<forall>q c. \<not> wpath E s q c e)"
  shows "dijkstra N E s e = Some []"
proof (cases "s \<in> set N \<and> e \<noteq> ''''")
  case False
  let ?D = "fold (\<lambda>node D. D(node \<mapsto> (if node = s then Fin 0 else Infinity))) N Map.empty"
  show ?thesis
  proof (cases "s = '''' \<or> e = '''' \<or> length N = 0")
    case True
    then show ?thesis by (auto simp: dijkstra_def)
  next
    case nt: False
    with False have "s \<notin> set N" by auto
    then have "?D s = None" by (simp add: init_distances)
    then have "dijkstra N E s e = search_loop E e \<lparr>distances = ?D, previous = Map.empty, pq = []\<rparr>"
      using nt by (auto simp: dijkstra_def Let_def)
    also have "\<dots> = Some []" by (subst search_loop.simps) simp
    finally show ?thesis .
  qed
next
  case True
  then have s: "s \<in> set N" and e: "e \<noteq> ''''" by simp_all
  from assms(1) s have s0: "s \<noteq> ''''" and pos: "\<forall>x \<in> set E. 0 < weight x"
    by (auto simp: wf_graph_def)
  have none: "\<not> wpath E s q c e" for q c
  proof
    assume w: "wpath E s q c e"
    from assms(1) have "\<forall>x \<in> set E. source x \<in> set N \<and> target x \<in> set N"
      by (simp add: wf_graph_def)
    with w s have "e \<in> set N" by (rule wpath_in_nodes)
    with assms(2) s w show False by blast
  qed
  then have "\<forall>q c. \<not> wpath E s q c e" by blast
  with pos have "search_loop E e
      \<lparr>distances = fold (\<lambda>node D. D(node \<mapsto> (if node = s then Fin 0 else Infinity))) N Map.empty,
         previous = Map.empty, pq = [(s, 0)]\<rparr> = Some []"
    using init_reach[OF s] by (rule search_loop_unreachable)
  then show ?thesis by (simp only: dijkstra_start[OF s s0 e])
qed

theorem computePath_empty_witness:
  "wf_graph stations4 links3 \<and> ''D'' \<in> set stations4 \<and>
   dijkstra stations4 links3 ''A'' ''D'' = Some []"
proof -
  have wf: "wf_graph stations4 links3"
    by (simp add: wf_graph_def stations4_def links3_def)
  have "\<not> wpath links3 ''A'' q c ''D''" for q c
  proof
    assume "wpath links3 ''A'' q c ''D''"
    moreover have "''A'' \<in> set stations3" by (simp add: stations3_def)
    moreover have "\<forall>x \<in> set links3. source x \<in> set stations3 \<and> target x \<in> set stations3"
      by (simp add: stations3_def links3_def)
    ultimately have "''D'' \<in> set stations3" by (rule wpath_in_nodes)
    then show False by (simp add: stations3_def)
  qed
  then have "''A'' \<notin> set stations4 \<or> ''D'' \<notin> set stations4 \<or>
      (\<forall>q c. \<not> wpath links3 ''A'' q c ''D'')" by blast
  from computePath_empty[OF wf this] wf show ?thesis by (simp add: stations4_def)
qed

section \<open>The claims about the journey\<close>

text \<open>
  Claim C3. When the re-route effect runs on an active journey and \<open>dijkstra\<close> from the train
  position to the destination returns the empty sequence, the journey is stopped: the active
  flag and the train position are cleared, the path is kept, and the log receives the line
  "No alternative path found ... Stopping simulation." (followed by "Simulation stopped.").
\<close>

theorem reroute_no_alternative:
  assumes "isSimulating st" and "trainPosition st = Some pos" and "pos \<noteq> ''''"
    and "destNode st \<noteq> ''''"
    and "dijkstra (nodes st) (edges st) pos (destNode st) = Some []"
  shows "\<exists>st'. reroute st = Some st' \<and> \<not> isSimulating st' \<and> trainPosition st' = None \<and>
           shortestPath st' = shortestPath st \<and>
           logs st' = addLog SimulationStopped (addLog (NoAlternativePath pos)
                        (addLog (NetworkChange pos) (logs st))) \<and>
           NoAlternativePath pos \<in> set (logs st')"
  using assms by (simp add: reroute_def stopSimulation_def Let_def addLog_def)

lemma no_route_B_D: "dijkstra stations4 links3 ''B'' ''D'' = Some []"
  by code_simp

theorem reroute_no_alternative_witness:
  "isSimulating in_transit_B \<and> trainPosition in_transit_B = Some ''B'' \<and>
   dijkstra (nodes in_transit_B) (edges in_transit_B) ''B'' (destNode in_transit_B) = Some [] \<and>
   (\<exists>st'. reroute in_transit_B = Some st' \<and> \<not> isSimulating st' \<and> trainPosition st' = None \<and>
      shortestPath st' = [''A'', ''B'', ''C''] \<and> NoAlternativePath ''B'' \<in> set (logs st'))"
proof -
  have d: "dijkstra (nodes in_transit_B) (edges in_transit_B) ''B'' (destNode in_transit_B) = Some []"
    using no_route_B_D by (simp add: in_transit_B_def)
  have "isSimulating in_transit_B" "trainPosition in_transit_B = Some ''B''" "''B'' \<noteq> ''''"
    "destNode in_transit_B \<noteq> ''''"
    by (simp_all add: in_transit_B_def)
  from reroute_no_alternative[OF this d] d show ?thesis
    by (auto simp: in_transit_B_def)
qed

text \<open>
  Claim C5. \<open>handleAddEdge\<close> rejects (the state is the old one plus the "Invalid edge" log
  line) exactly when the two stations are equal or the parsed weight is not a positive
  integer; on rejection the link set is unchanged.
\<close>

theorem upsertLink_rejected_iff:
  "(handleAddEdge a b parsed st = st\<lparr>logs := addLog InvalidEdge (logs st)\<rparr>
      \<longleftrightarrow> a = b \<or> \<not> (\<exists>w. parsed = Some w \<and> 0 < w)) \<and>
   (a = b \<or> \<not> (\<exists>w. parsed = Some w \<and> 0 < w) \<longrightarrow>
      edges (handleAddEdge a b parsed st) = edges st \<and>
      InvalidEdge \<in> set (logs (handleAddEdge a b parsed st)))"
proof -
  have inv: "invalid_edge a b parsed \<longleftrightarrow> a = b \<or> \<not> (\<exists>w. parsed = Some w \<and> 0 < w)"
    by (cases parsed) (auto simp: invalid_edge_def)
  show ?thesis
  proof (cases "invalid_edge a b parsed")
    case True
    then show ?thesis using inv by (simp add: handleAddEdge_def addLog_def)
  next
    case False
    with inv obtain w where w: "parsed = Some w" "0 < w" by blast
    have "handleAddEdge a b parsed st \<noteq> st\<lparr>logs := addLog InvalidEdge (logs st)\<rparr>"
    proof
      assume "handleAddEdge a b parsed st = st\<lparr>logs := addLog InvalidEdge (logs st)\<rparr>"
      then have "logs (handleAddEdge a b parsed st) = addLog InvalidEdge (logs st)" by simp
      then show False using False w
        by (simp add: handleAddEdge_def addLog_def split: option.splits)
    qed
    with False inv show ?thesis by simp
  qed
qed

theorem upsertLink_rejected_iff_witness:
  "handleAddEdge ''A'' ''A'' (Some 3) mounted = mounted\<lparr>logs := addLog InvalidEdge (logs mounted)\<rparr> \<and>
   handleAddEdge ''A'' ''B'' (Some 0) mounted = mounted\<lparr>logs := addLog InvalidEdge (logs mounted)\<rparr> \<and>
   handleAddEdge ''A'' ''B'' None mounted = mounted\<lparr>logs := addLog InvalidEdge (logs mounted)\<rparr> \<and>
   handleAddEdge ''A'' ''B'' (Some 3) mounted \<noteq> mounted\<lparr>logs := addLog InvalidEdge (logs mounted)\<rparr> \<and>
   edges (handleAddEdge ''A'' ''A'' (Some 3) mounted) = edges mounted"
  using upsertLink_rejected_iff[of "''A''" "''A''" "Some 3" mounted]
    upsertLink_rejected_iff[of "''A''" "''B''" "Some 0" mounted]
    upsertLink_rejected_iff[of "''A''" "''B''" "None" mounted]
    upsertLink_rejected_iff[of "''A''" "''B''" "Some 3" mounted]
  by simp

text \<open>
  Claim C9 says that \<open>proceed\<close> outside a journey emits a log message. It does not: on the
  mounted application, where no journey is active, \<open>handleProceed\<close> returns the state as it
  is and adds no log line.
\<close>

theorem proceed_idle_is_silent_counterexample:
  "\<not> isSimulating mounted \<and> handleProceed mounted = mounted \<and>
   \<not> (\<exists>m. logs (handleProceed mounted) = addLog m (logs mounted))"
  by (simp add: handleProceed_def mounted_def initial_def graphInit_def stopSimulation_def
      Let_def addLog_def)

text \<open>
  Claim C9, amended. \<open>handleProceed\<close> with no journey in transit returns the state unchanged
  and logs nothing; \<open>startSimulation\<close> with an empty path leaves path, position and active
  flag unchanged and logs "Cannot start: Calculate a path first.". Both are total functions
  without an error branch.
\<close>

theorem invalid_operation_noop:
  "(\<not> isSimulating st \<or> falsy (trainPosition st) \<longrightarrow> handleProceed st = st) \<and>
   (shortestPath st = [] \<longrightarrow>
      startSimulation st = st\<lparr>logs := addLog CannotStart (logs st)\<rparr> \<and>
      shortestPath (startSimulation st) = shortestPath st \<and>
      trainPosition (startSimulation st) = trainPosition st \<and>
      isSimulating (startSimulation st) = isSimulating st \<and>
      logs (startSimulation st) = addLog CannotStart (logs st))"
  by (auto simp: handleProceed_def startSimulation_def falsy_def addLog_def split: option.splits)

theorem invalid_operation_noop_witness:
  "\<not> isSimulating mounted \<and> shortestPath mounted = [] \<and> handleProceed mounted = mounted \<and>
   startSimulation mounted = mounted\<lparr>logs := addLog CannotStart (logs mounted)\<rparr>"
proof -
  have "\<not> isSimulating mounted" "shortestPath mounted = []"
    by (simp_all add: mounted_def initial_def graphInit_def stopSimulation_def Let_def)
  with invalid_operation_noop[of mounted] show ?thesis by simp
qed

section \<open>The claims about the graph model\<close>

lemma length_generateStations: "length (generateStations c) = nat c"
  by (simp add: generateStations_def)

lemma generateStations_26: "generateStations 26 = alphabet"
  by code_simp

lemma generateStations_alphabet:
  assumes "c \<le> 26"
  shows "generateStations c = take (nat c) alphabet"
proof -
  have "[0 ..< nat c] = take (nat c) [0 ..< nat 26]" using assms by (simp add: min_def)
  then have "generateStations c = take (nat c) (generateStations 26)"
    by (simp only: generateStations_def take_map)
  then show ?thesis by (simp only: generateStations_26)
qed

lemma numStations_onBlur_clamps:
  "numStations (numStations_onBlur parsed st) =
     Some (case parsed of None \<Rightarrow> 2 | Some v \<Rightarrow> max 2 (min 15 v))"
  by (cases parsed)
    (auto simp: numStations_onBlur_def setNumStations_def graphInit_def stopSimulation_def Let_def)

text \<open>
  Claim C4 says that every requested count is clamped to 2..26 and that the links are always
  cleared. In App.jsx the count 20 is neither clamped nor acted upon: the six stations and
  the link stay.
\<close>

theorem regenerateStations_counterexample:
  "length (nodes (setNumStations (Some 20) one_link)) = 6 \<and>
   length (nodes (setNumStations (Some 20) one_link)) \<noteq> nat (max 2 (min 26 20)) \<and>
   edges (setNumStations (Some 20) one_link) =
     [\<lparr>source = ''A'', target = ''B'', weight = 1\<rparr>] \<and>
   edges (setNumStations (Some 20) one_link) \<noteq> []"
  by (simp add: one_link_def handleAddEdge_def invalid_edge_def mounted_def initial_def
      graphInit_def stopSimulation_def setNumStations_def Let_def length_generateStations)

text \<open>
  Claim C4, amended. \<open>changeStationCount\<close> of RailwayMap.jsx clamps every integer count to
  2..26, replaces the stations by the first letters of the alphabet, as many as the clamped
  count, and clears all links and weights. The initialization effect of App.jsx does the same
  for a count within 2..15 without clamping, and leaves the state untouched for any other
  count.
\<close>

theorem regenerateStations_by_component:
  "(let c = max 2 (min 26 count); r' = changeStationCount count r
    in stationCount r' = c \<and> 2 \<le> c \<and> c \<le> 26 \<and> stations r' = take (nat c) alphabet \<and>
       length (stations r') = nat c \<and> rm_edges r' = [] \<and> weights r' = Map.empty) \<and>
   (numStations st = Some n \<and> 2 \<le> n \<and> n \<le> 15 \<longrightarrow>
      nodes (graphInit st) = take (nat n) alphabet \<and> length (nodes (graphInit st)) = nat n \<and>
      edges (graphInit st) = []) \<and>
   (numStations st = None \<or> (\<exists>m. numStations st = Some m \<and> (m < 2 \<or> 15 < m)) \<longrightarrow>
      graphInit st = st)"
proof -
  let ?c = "max 2 (min 26 count)"
  have c: "2 \<le> ?c" "?c \<le> 26" by simp_all
  have 1: "generateStations ?c = take (nat ?c) alphabet"
    using c(2) by (rule generateStations_alphabet)
  have 2: "length (take (nat ?c) alphabet) = nat ?c"
    using length_generateStations[of ?c] 1 by simp
  have a: "let c = ?c; r' = changeStationCount count r
    in stationCount r' = c \<and> 2 \<le> c \<and> c \<le> 26 \<and> stations r' = take (nat c) alphabet \<and>
       length (stations r') = nat c \<and> rm_edges r' = [] \<and> weights r' = Map.empty"
    unfolding Let_def changeStationCount_def using c 1 2 by simp
  have b: "nodes (graphInit st) = take (nat n) alphabet \<and> length (nodes (graphInit st)) = nat n \<and>
      edges (graphInit st) = []" if "numStations st = Some n" "2 \<le> n" "n \<le> 15"
  proof -
    from that have "generateStations n = take (nat n) alphabet"
      by (intro generateStations_alphabet) simp
    with that length_generateStations[of n] show ?thesis
      by (simp add: graphInit_def stopSimulation_def Let_def)
  qed
  have d: "graphInit st = st"
    if "numStations st = None \<or> (\<exists>m. numStations st = Some m \<and> (m < 2 \<or> 15 < m))"
    using that by (auto simp: graphInit_def)
  from a b d show ?thesis by blast
qed

theorem regenerateStations_by_component_witness:
  "stations (changeStationCount 40 railway3) = alphabet \<and>
   stations (changeStationCount 0 railway3) = [''A'', ''B''] \<and>
   nodes (graphInit (one_link\<lparr>numStations := Some 3\<rparr>)) = [''A'', ''B'', ''C''] \<and>
   edges (graphInit (one_link\<lparr>numStations := Some 3\<rparr>)) = [] \<and>
   graphInit (one_link\<lparr>numStations := Some 20\<rparr>) = one_link\<lparr>numStations := Some 20\<rparr>"
  using regenerateStations_by_component[of 40 railway3 "one_link\<lparr>numStations := Some 3\<rparr>" 3]
    regenerateStations_by_component[of 0 railway3 "one_link\<lparr>numStations := Some 20\<rparr>" 20]
  by (simp add: Let_def alphabet_def)

lemma same_pair_doubleton: "same_pair a b e \<longleftrightarrow> {source e, target e} = {a, b}"
  by (auto simp: same_pair_def doubleton_eq_iff)

lemma pairs_set_weight_first:
  "map (\<lambda>e. {source e, target e}) (set_weight_first P w es) = map (\<lambda>e. {source e, target e}) es"
  by (induction es) simp_all

lemma length_set_weight_first: "length (set_weight_first P w es) = length es"
  by (induction es) simp_all

lemma set_weight_first_update:
  "\<exists>e \<in> set es. P e \<Longrightarrow>
   \<exists>i < length es. P (es ! i) \<and> (\<forall>j < i. \<not> P (es ! j)) \<and>
     set_weight_first P w es = es[i := (es ! i)\<lparr>weight := w\<rparr>]"
proof (induction es)
  case Nil
  then show ?case by simp
next
  case (Cons e es)
  show ?case
  proof (cases "P e")
    case True
    then have "0 < length (e # es) \<and> P ((e # es) ! 0) \<and> (\<forall>j < 0. \<not> P ((e # es) ! j)) \<and>
        set_weight_first P w (e # es) = (e # es)[0 := ((e # es) ! 0)\<lparr>weight := w\<rparr>]"
      by simp
    then show ?thesis by blast
  next
    case False
    with Cons.prems have "\<exists>x \<in> set es. P x" by auto
    from Cons.IH[OF this] obtain i where i: "i < length es" "P (es ! i)"
      "\<forall>j < i. \<not> P (es ! j)" "set_weight_first P w es = es[i := (es ! i)\<lparr>weight := w\<rparr>]"
      by blast
    have "\<forall>j < Suc i. \<not> P ((e # es) ! j)"
      using False i(3) by (auto simp: less_Suc_eq_0_disj)
    with i False have "Suc i < length (e # es) \<and> P ((e # es) ! Suc i) \<and>
        (\<forall>j < Suc i. \<not> P ((e # es) ! j)) \<and>
        set_weight_first P w (e # es) = (e # es)[Suc i := ((e # es) ! Suc i)\<lparr>weight := w\<rparr>]"
      by simp
    then show ?thesis by blast
  qed
qed

lemma handleAddEdge_edges:
  assumes "\<not> invalid_edge a b parsed" and "parsed = Some w"
  shows "edges (handleAddEdge a b parsed st) =
    (if \<exists>e \<in> set (edges st). same_pair a b e
     then set_weight_first (same_pair a b) w (edges st)
     else edges st @ [\<lparr>source = a, target = b, weight = w\<rparr>])"
proof (cases "find (same_pair a b) (edges st)")
  case None
  then have "\<not> (\<exists>e \<in> set (edges st). same_pair a b e)" by (simp add: find_None_iff)
  with None assms show ?thesis by (simp add: handleAddEdge_def)
next
  case (Some x)
  then have "\<exists>e \<in> set (edges st). same_pair a b e" by (auto simp: find_Some_iff)
  with Some assms show ?thesis by (simp add: handleAddEdge_def)
qed

lemma handleAddEdge_one_link:
  assumes "one_link_per_pair (edges st)"
  shows "one_link_per_pair (edges (handleAddEdge a b parsed st))"
proof (cases "invalid_edge a b parsed")
  case True
  with assms show ?thesis by (simp add: handleAddEdge_def)
next
  case False
  then obtain w where w: "parsed = Some w" by (cases parsed) (auto simp: invalid_edge_def)
  show ?thesis
  proof (cases "\<exists>e \<in> set (edges st). same_pair a b e")
    case True
    with assms show ?thesis
      unfolding handleAddEdge_edges[OF False w] one_link_per_pair_def
      by (simp add: pairs_set_weight_first)
  next
    case no: False
    then have "{a, b} \<notin> (\<lambda>e. {source e, target e}) ` set (edges st)"
      by (auto simp: same_pair_doubleton)
    with no assms show ?thesis
      unfolding handleAddEdge_edges[OF False w] one_link_per_pair_def
      by simp
  qed
qed

lemma makeEdgeKey_commute: "makeEdgeKey a b = makeEdgeKey b a"
proof (cases a b rule: linorder_cases)
  case less
  then have "\<not> b < a" by simp
  with less show ?thesis by (simp add: makeEdgeKey_def)
next
  case equal
  then show ?thesis by simp
next
  case greater
  then have "\<not> a < b" by simp
  with greater show ?thesis by (simp add: makeEdgeKey_def)
qed

lemma find_key_None:
  assumes "find (\<lambda>(a, b). makeEdgeKey a b = k) ps = None"
  shows "k \<notin> (\<lambda>(a, b). makeEdgeKey a b) ` set ps"
proof
  assume "k \<in> (\<lambda>(a, b). makeEdgeKey a b) ` set ps"
  then obtain p where p: "p \<in> set ps" "k = (case p of (a, b) \<Rightarrow> makeEdgeKey a b)" by blast
  from assms have "\<not> (\<exists>x. x \<in> set ps \<and> (case x of (a, b) \<Rightarrow> makeEdgeKey a b = k))"
    by (simp add: find_None_iff)
  with p(1) have "\<not> (case p of (a, b) \<Rightarrow> makeEdgeKey a b = k)" by blast
  with p(2) show False by (cases p) simp
qed

lemma addEdge_one_key:
  assumes "one_key_per_pair (rm_edges r)"
  shows "one_key_per_pair (rm_edges (addEdge r))"
proof (cases "newEdgeStart r = newEdgeEnd r")
  case True
  with assms show ?thesis by (simp add: addEdge_def)
next
  case False
  let ?key = "makeEdgeKey (newEdgeStart r) (newEdgeEnd r)"
  show ?thesis
  proof (cases "find (\<lambda>(a, b). makeEdgeKey a b = ?key) (rm_edges r)")
    case None
    then have "?key \<notin> (\<lambda>(a, b). makeEdgeKey a b) ` set (rm_edges r)"
      by (rule find_key_None)
    moreover have "rm_edges (addEdge r) = rm_edges r @ [(newEdgeStart r, newEdgeEnd r)]"
      using None False unfolding addEdge_def Let_def by simp
    ultimately show ?thesis
      using assms unfolding one_key_per_pair_def by simp
  next
    case (Some x)
    with False assms show ?thesis by (simp add: addEdge_def Let_def)
  qed
qed

lemma one_key_unordered:
  assumes "one_key_per_pair ps"
  shows "distinct (map (\<lambda>(a, b). {a, b}) ps)"
proof -
  have key: "makeEdgeKey a b = makeEdgeKey c d" if "{a, b} = {c, d}" for a b c d :: string
  proof -
    from that have "(a = c \<and> b = d) \<or> (a = d \<and> b = c)" by (simp add: doubleton_eq_iff)
    then show ?thesis
    proof
      assume "a = c \<and> b = d" then show ?thesis by simp
    next
      assume "a = d \<and> b = c" then show ?thesis by (simp only: makeEdgeKey_commute[of d c])
    qed
  qed
  from assms have d: "distinct ps" and i: "inj_on (\<lambda>(a, b). makeEdgeKey a b) (set ps)"
    by (simp_all add: one_key_per_pair_def distinct_map)
  have "inj_on (\<lambda>(a, b). {a, b}) (set ps)"
  proof (rule inj_onI)
    fix x y assume x: "x \<in> set ps" and y: "y \<in> set ps"
      and eq: "(case x of (a, b) \<Rightarrow> {a, b}) = (case y of (a, b) \<Rightarrow> {a, b})"
    obtain a b c d where xy: "x = (a, b)" "y = (c, d)" by (cases x, cases y) blast
    with eq have "{a, b} = {c, d}" by simp
    then have "makeEdgeKey a b = makeEdgeKey c d" by (rule key)
    with xy have "(case x of (a, b) \<Rightarrow> makeEdgeKey a b) = (case y of (a, b) \<Rightarrow> makeEdgeKey a b)"
      by simp
    from i this x y show "x = y" by (rule inj_onD)
  qed
  with d show ?thesis by (simp add: distinct_map)
qed

text \<open>
  Claim C6. The link set holds at most one link per unordered pair of stations:
  \<open>handleAddEdge\<close> preserves this; accepted on a pair that has a link it rewrites the weight of
  that link in place and keeps the number of links; accepted on a new pair it appends exactly
  one link; the link set starts empty and the initialization effect preserves the invariant.
  In RailwayMap.jsx \<open>addEdge\<close>, \<open>changeStationCount\<close> and \<open>updateWeight\<close> keep the edge keys
  pairwise different, hence the unordered pairs too.
\<close>

theorem link_set_one_per_pair:
  "(one_link_per_pair (edges st) \<longrightarrow> one_link_per_pair (edges (handleAddEdge a b parsed st))) \<and>
   (\<not> invalid_edge a b parsed \<and> parsed = Some w \<and> (\<exists>e \<in> set (edges st). same_pair a b e) \<longrightarrow>
      length (edges (handleAddEdge a b parsed st)) = length (edges st) \<and>
      (\<exists>i < length (edges st). same_pair a b (edges st ! i) \<and>
         edges (handleAddEdge a b parsed st) = (edges st)[i := (edges st ! i)\<lparr>weight := w\<rparr>])) \<and>
   (\<not> invalid_edge a b parsed \<and> parsed = Some w \<and> \<not> (\<exists>e \<in> set (edges st). same_pair a b e) \<longrightarrow>
      edges (handleAddEdge a b parsed st) = edges st @ [\<lparr>source = a, target = b, weight = w\<rparr>]) \<and>
   one_link_per_pair (edges initial) \<and>
   (one_link_per_pair (edges st) \<longrightarrow> one_link_per_pair (edges (graphInit st))) \<and>
   (one_key_per_pair (rm_edges r) \<longrightarrow>
      one_key_per_pair (rm_edges (addEdge r)) \<and>
      one_key_per_pair (rm_edges (changeStationCount n r)) \<and>
      one_key_per_pair (rm_edges (updateWeight k v r)) \<and>
      distinct (map (\<lambda>(x, y). {x, y}) (rm_edges r)))"
proof -
  have 1: "one_link_per_pair (edges st) \<longrightarrow> one_link_per_pair (edges (handleAddEdge a b parsed st))"
    by (simp add: handleAddEdge_one_link)
  have 2: "length (edges (handleAddEdge a b parsed st)) = length (edges st) \<and>
      (\<exists>i < length (edges st). same_pair a b (edges st ! i) \<and>
         edges (handleAddEdge a b parsed st) = (edges st)[i := (edges st ! i)\<lparr>weight := w\<rparr>])"
    if "\<not> invalid_edge a b parsed" "parsed = Some w" "\<exists>e \<in> set (edges st). same_pair a b e"
  proof -
    from that have e: "edges (handleAddEdge a b parsed st) =
        set_weight_first (same_pair a b) w (edges st)"
      by (simp add: handleAddEdge_edges)
    from set_weight_first_update[OF that(3), of w] e show ?thesis
      by (auto simp: length_set_weight_first)
  qed
  have 3: "edges (handleAddEdge a b parsed st) = edges st @ [\<lparr>source = a, target = b, weight = w\<rparr>]"
    if "\<not> invalid_edge a b parsed" "parsed = Some w" "\<not> (\<exists>e \<in> set (edges st). same_pair a b e)"
    using that by (simp add: handleAddEdge_edges)
  have 4: "one_link_per_pair (edges initial)"
    by (simp add: initial_def one_link_per_pair_def)
  have 5: "one_link_per_pair (edges st) \<longrightarrow> one_link_per_pair (edges (graphInit st))"
    by (simp add: graphInit_def stopSimulation_def Let_def one_link_per_pair_def split: option.splits)
  have 6: "one_key_per_pair (rm_edges (addEdge r)) \<and>
      one_key_per_pair (rm_edges (changeStationCount n r)) \<and>
      one_key_per_pair (rm_edges (updateWeight k v r)) \<and>
      distinct (map (\<lambda>(x, y). {x, y}) (rm_edges r))" if "one_key_per_pair (rm_edges r)"
    using that addEdge_one_key[OF that] one_key_unordered[OF that]
    by (simp add: changeStationCount_def updateWeight_def Let_def one_key_per_pair_def)
  from 1 2 3 4 5 6 show ?thesis by blast
qed

lemma one_link_edges: "edges one_link = [\<lparr>source = ''A'', target = ''B'', weight = 1\<rparr>]"
  by (simp add: one_link_def handleAddEdge_def invalid_edge_def mounted_def initial_def
      graphInit_def stopSimulation_def Let_def)

theorem link_set_one_per_pair_witness:
  "one_link_per_pair (edges one_link) \<and>
   one_link_per_pair (edges (handleAddEdge ''B'' ''A'' (Some 7) one_link)) \<and>
   edges (handleAddEdge ''B'' ''A'' (Some 7) one_link) =
     [\<lparr>source = ''A'', target = ''B'', weight = 7\<rparr>] \<and>
   edges (handleAddEdge ''B'' ''C'' (Some 2) one_link) =
     [\<lparr>source = ''A'', target = ''B'', weight = 1\<rparr>, \<lparr>source = ''B'', target = ''C'', weight = 2\<rparr>]"
proof -
  have a: "one_link_per_pair (edges one_link)"
    by (simp add: one_link_edges one_link_per_pair_def)
  have b: "\<not> invalid_edge ''B'' ''A'' (Some 7)" "\<not> invalid_edge ''B'' ''C'' (Some 2)"
    by (simp_all add: invalid_edge_def)
  have c: "\<exists>e \<in> set (edges one_link). same_pair ''B'' ''A'' e"
    "\<not> (\<exists>e \<in> set (edges one_link). same_pair ''B'' ''C'' e)"
    by (simp_all add: one_link_edges same_pair_def)
  have "one_link_per_pair (edges (handleAddEdge ''B'' ''A'' (Some 7) one_link))"
    using link_set_one_per_pair[of one_link "''B''" "''A''" "Some 7" 7 railway3 3 "''A-B''" "()"] a by simp
  moreover have "\<exists>i < length (edges one_link). same_pair ''B'' ''A'' (edges one_link ! i) \<and>
         edges (handleAddEdge ''B'' ''A'' (Some 7) one_link) =
           (edges one_link)[i := (edges one_link ! i)\<lparr>weight := 7\<rparr>]"
    using link_set_one_per_pair[of one_link "''B''" "''A''" "Some 7" 7 railway3 3 "''A-B''" "()"] b(1) c(1) by simp
  moreover have "edges (handleAddEdge ''B'' ''C'' (Some 2) one_link) =
      edges one_link @ [\<lparr>source = ''B'', target = ''C'', weight = 2\<rparr>]"
    using link_set_one_per_pair[of one_link "''B''" "''C''" "Some 2" 2 railway3 3 "''A-B''" "()"] b(2) c(2) by simp
  ultimately show ?thesis using a by (auto simp: one_link_edges)
qed

text \<open>
  The drawing component on a new pair: when the two selected stations differ and no stored
  edge has their key, \<open>addEdge\<close> appends the edge and stores the entered weight under the
  key; no alert is raised.
\<close>

lemma addEdge_appends:
  assumes "newEdgeStart st \<noteq> newEdgeEnd st"
    and "\<forall>(a, b) \<in> set (rm_edges st). makeEdgeKey a b \<noteq> makeEdgeKey (newEdgeStart st) (newEdgeEnd st)"
  shows "rm_edges (addEdge st) = rm_edges st @ [(newEdgeStart st, newEdgeEnd st)] \<and>
         weights (addEdge st) =
           (weights st)(makeEdgeKey (newEdgeStart st) (newEdgeEnd st) \<mapsto> newEdgeWeight st) \<and>
         alerts (addEdge st) = alerts st"
proof -
  from assms(2) have "find (\<lambda>(a, b). makeEdgeKey a b = makeEdgeKey (newEdgeStart st) (newEdgeEnd st))
      (rm_edges st) = None"
    by (auto simp: find_None_iff)
  with assms(1) show ?thesis by (simp add: addEdge_def Let_def)
qed

section \<open>The train and its path\<close>

lemma indexOf_lower: "- 1 \<le> indexOf xs x"
  by (induction xs) (auto simp: Let_def)

lemma indexOf_absent: "x \<notin> set xs \<Longrightarrow> indexOf xs x = - 1"
  by (induction xs) (auto simp: Let_def)

lemma indexOf_present:
  "x \<in> set xs \<Longrightarrow>
   0 \<le> indexOf xs x \<and> nat (indexOf xs x) < length xs \<and> xs ! nat (indexOf xs x) = x"
proof (induction xs)
  case Nil
  then show ?case by simp
next
  case (Cons y ys)
  show ?case
  proof (cases "y = x")
    case True
    then show ?thesis by simp
  next
    case False
    with Cons.prems have "x \<in> set ys" by simp
    from Cons.IH[OF this] False show ?thesis
      by (simp add: Let_def nat_add_distrib)
  qed
qed

lemma dijkstra_starts_at:
  assumes "wf_graph N E" and "exact_sums N E" and "s \<in> set N" and "t \<noteq> ''''"
    and "dijkstra N E s t = Some r" and "r \<noteq> []"
  shows "hd r = s \<and> last r = t"
proof -
  from dijkstra_spec[OF assms(1-4)] assms(5) have "post E s t r" by simp
  with assms(6) obtain c where "wpath E s r c t" unfolding post_def by blast
  then show ?thesis by (simp add: wpath_ends)
qed

lemma reroute_keeps_prefix:
  assumes wf: "wf_graph (nodes st) (edges st)" and xs: "exact_sums (nodes st) (edges st)"
    and act: "isSimulating st" "trainPosition st = Some pos" "destNode st \<noteq> ''''"
    and pos: "pos \<in> set (nodes st)" "pos \<in> set (shortestPath st)"
  shows "\<exists>st'. reroute st = Some st' \<and>
    (isSimulating st' \<longrightarrow>
       trainPosition st' = Some pos \<and> pos \<in> set (shortestPath st') \<and>
       take (Suc (nat (indexOf (shortestPath st) pos))) (shortestPath st') =
       take (Suc (nat (indexOf (shortestPath st) pos))) (shortestPath st))"
proof -
  let ?old = "shortestPath st" and ?i = "nat (indexOf (shortestPath st) pos)"
  from wf pos(1) have p0: "pos \<noteq> ''''" by (auto simp: wf_graph_def)
  from dijkstra_spec[OF wf xs pos(1) act(3)] obtain r where
    r: "dijkstra (nodes st) (edges st) pos (destNode st) = Some r" by blast
  from indexOf_present[OF pos(2)] have i: "0 \<le> indexOf ?old pos" "?i < length ?old" "?old ! ?i = pos"
    by simp_all
  show ?thesis
  proof (cases "r = []")
    case True
    with r act p0 show ?thesis
      by (simp add: reroute_def stopSimulation_def Let_def)
  next
    case False
    from dijkstra_starts_at[OF wf xs pos(1) act(3) r False] have "hd r = pos" by simp
    with False obtain r' where r': "r = pos # r'" by (cases r) auto
    let ?new = "take ?i ?old @ r"
    have sl: "slice0 ?old (indexOf ?old pos) = take ?i ?old"
      using i(1) by (simp add: slice0_def)
    have "take (Suc ?i) ?new = take ?i ?old @ [pos]"
      using i(2) r' by simp
    also have "\<dots> = take (Suc ?i) ?old"
      using i(2,3) by (simp add: take_Suc_conv_app_nth)
    finally have pre: "take (Suc ?i) ?new = take (Suc ?i) ?old" .
    have mem: "pos \<in> set ?new" using r' by simp
    show ?thesis
    proof (cases "?new = ?old")
      case True
      with r False act p0 sl pos(2) show ?thesis
        by (simp add: reroute_def Let_def)
    next
      case neq: False
      with r False act p0 sl pre mem show ?thesis
        by (simp add: reroute_def Let_def)
    qed
  qed
qed

lemma handleProceed_on_path: "on_path st \<Longrightarrow> on_path (handleProceed st)"
proof -
  assume a: "on_path st"
  show ?thesis
  proof (cases "trainPosition st")
    case None
    with a show ?thesis by (simp add: handleProceed_def)
  next
    case (Some pos)
    let ?ci = "indexOf (shortestPath st) pos"
    show ?thesis
    proof (cases "isSimulating st \<and> pos \<noteq> '''' \<and> ?ci < int (length (shortestPath st)) - 1")
      case True
      from indexOf_lower[of "shortestPath st" pos] True
      have "nat (?ci + 1) < length (shortestPath st)" by linarith
      then have "shortestPath st ! nat (?ci + 1) \<in> set (shortestPath st)" by simp
      with Some True show ?thesis
        by (simp add: handleProceed_def Let_def on_path_def)
    next
      case False
      with Some a have "handleProceed st = st"
        by (auto simp: handleProceed_def Let_def)
      with a show ?thesis by simp
    qed
  qed
qed

lemma startSimulation_on_path:
  "on_path (startSimulation st) \<longleftrightarrow>
     (if shortestPath st \<noteq> [] \<and> sourceNode st \<noteq> '''' \<and> destNode st \<noteq> ''''
      then sourceNode st \<in> set (shortestPath st) else on_path st)"
  by (auto simp: startSimulation_def on_path_def split: option.splits)

lemma reroute_on_path:
  assumes "wf_graph (nodes st) (edges st)" and "on_path st" and "reroute st = Some st'"
    and "\<forall>pos. trainPosition st = Some pos \<longrightarrow> pos \<in> set (nodes st)"
    and "exact_sums (nodes st) (edges st)"
  shows "on_path st'"
proof (cases "isSimulating st \<and> destNode st \<noteq> ''''")
  case True
  with assms(2) obtain pos where pos: "trainPosition st = Some pos" "pos \<in> set (shortestPath st)"
    by (auto simp: on_path_def split: option.splits)
  with assms(4) have "pos \<in> set (nodes st)" by simp
  from reroute_keeps_prefix[OF assms(1,5) _ pos(1) _ this pos(2)] True assms(3)
  show ?thesis by (auto simp: on_path_def)
next
  case False
  with assms(2,3) show ?thesis
    by (auto simp: reroute_def on_path_def split: option.splits)
qed

text \<open>
  Claim C10 says that an active journey always has its train on the current path, because
  \<open>startSimulation\<close> puts the train on the first element of the computed path. The lemmas
  above give the part that holds: \<open>handleProceed\<close> and the re-route effect (the latter for
  weights that keep the sums exact) preserve \<open>on_path\<close>, and \<open>startSimulation\<close> establishes it exactly when the selected source lies on
  the path. It fails when the source selection changed after the path was calculated: in
  the session \<open>off_path\<close> the path is A, B, C, the journey is active and the train stands
  on D; \<open>handleProceed\<close> then moves the train from D to A.
\<close>

theorem start_after_reselect_off_path:
  "map_option (\<lambda>st. (sourceNode st, shortestPath st)) path_ready =
     Some (''A'', [''A'', ''B'', ''C'']) \<and>
   map_option (\<lambda>st. (isSimulating st, trainPosition st, shortestPath st)) off_path =
     Some (True, Some ''D'', [''A'', ''B'', ''C'']) \<and>
   ''D'' \<notin> set [''A'', ''B'', ''C'']"
  by code_simp

lemma proceed_off_path_jumps:
  "map_option on_path off_path = Some False \<and>
   map_option (\<lambda>st. trainPosition (handleProceed st)) off_path = Some (Some ''A'')"
  by code_simp

text \<open>
  Claim C2 says that a re-route keeps the path's prefix up to and including the train
  position. \<open>reroute_keeps_prefix\<close> gives the part that holds, for a train on the path and
  weights that keep the sums exact. In
  the session \<open>off_path\<close> the train is not on the path, \<open>indexOf\<close> is -1 and
  \<open>slice(0, -1)\<close> drops the last station: editing the link A-B turns the path A, B, C into
  A, B, D, C, whose prefix up to the train position D differs from the old path's.
\<close>

theorem reroute_off_path_splices_wrong_prefix:
  "map_option (\<lambda>st. (isSimulating st, trainPosition st, destNode st, shortestPath st)) off_path =
     Some (True, Some ''D'', ''C'', [''A'', ''B'', ''C'']) \<and>
   map_option (\<lambda>st. (trainPosition st, shortestPath st))
     (Option.bind off_path (submitEdge ''A'' ''B'' (Some 2))) =
     Some (Some ''D'', [''A'', ''B'', ''D'', ''C'']) \<and>
   take 3 [''A'', ''B'', ''D'', ''C''] \<noteq> take 3 [''A'', ''B'', ''C'']"
  by code_simp

section \<open>The scenarios of the specification\<close>

text \<open>
  Scenario 1: on A-B = 1, B-C = 1, A-C = 5 the path from A to C is A, B, C. Scenario 2: with
  the train at A, raising A-B to 10 re-routes to A, C and logs the update. Scenario 3: there
  is no path to the unconnected station D.
\<close>

lemma scenario_1: "dijkstra stations3 links3 ''A'' ''C'' = Some [''A'', ''B'', ''C'']"
  by code_simp

lemma scenario_2:
  "map_option (\<lambda>st. (shortestPath st, trainPosition st, isSimulating st, hd (logs st)))
     (submitEdge ''A'' ''B'' (Some 10) in_transit_A) =
   Some ([''A'', ''C''], Some ''A'', True, PathUpdated [''A'', ''C''])"
  by code_simp

lemma scenario_3:
  "map_option (\<lambda>st. (shortestPath st, hd (logs st)))
     (handleCalculatePath (in_transit_B\<lparr>isSimulating := False, trainPosition := None\<rparr>)) =
   Some ([], NoPathFound ''A'' ''D'')"
  by code_simp

end
